theory Spec2Isabelle
  imports Complex_Main "HOL-Library.Word"
begin

section \<open>The multi-window rate limiter (ratelimit.go)\<close>

text \<open>
  Go's \<open>int64\<close> is a 64-bit word: \<open>+\<close>, \<open>-\<close> and \<open>*\<close> wrap around, comparisons are
  signed (\<open><s\<close>, \<open>\<le>s\<close>, read through \<open>sint\<close>). \<open>time.Duration\<close> is an \<open>int64\<close> count of
  nanoseconds. The clock (\<open>time.Now().Unix()\<close>) is a parameter of every operation that
  reads it.
\<close>

type_synonym int64 = "64 word"
type_synonym Duration = "64 word"

definition time_Second :: Duration where
  "time_Second = 1000000000"

definition time_Minute :: Duration where
  "time_Minute = 60 * time_Second"

definition time_Hour :: Duration where
  "time_Hour = 60 * time_Minute"

text \<open>The struct \<open>Limiter\<close>; the mutex is left out, every operation below is atomic.\<close>

record Limiter =
  maxPerSecond :: int64
  maxPerMinute :: int64
  maxPerHour :: int64
  reqPerSecond :: int64
  reqPerMinute :: int64
  reqPerHour :: int64
  lastSec :: int64
  lastMin :: int64
  lastHour :: int64
  totalAllowed :: int64
  totalBlocked :: int64

text \<open>
  \<open>NewLimiter\<close>: \<open>ts\<close> is the clock reading \<open>time.Now().Unix()\<close>. The three maxima are Go
  \<open>int\<close>s converted with \<open>int64(...)\<close>, which keeps their value.
\<close>

definition NewLimiter :: "int64 \<Rightarrow> int64 \<Rightarrow> int64 \<Rightarrow> int64 \<Rightarrow> Limiter" where
  "NewLimiter maxS maxM maxH ts =
     \<lparr> maxPerSecond = maxS, maxPerMinute = maxM, maxPerHour = maxH,
       reqPerSecond = 0, reqPerMinute = 0, reqPerHour = 0,
       lastSec = ts, lastMin = ts, lastHour = ts,
       totalAllowed = 0, totalBlocked = 0 \<rparr>"

text \<open>
  The errors of \<open>Allowed\<close>, one per \<open>fmt.Errorf\<close> call, carrying the values the message is
  formatted from: the counter, the maximum and the delay.
\<close>

datatype limit_error =
    ExceedsPerHour int64 int64 Duration
  | ExceedsPerMinute int64 int64 Duration
  | ExceedsPerSecond int64 int64 Duration

text \<open>
  The deferred function of \<open>Allowed\<close>: it runs at every return and counts the call as
  allowed or blocked.
\<close>

definition Allowed_deferred ::
  "Duration \<times> limit_error option \<times> Limiter \<Rightarrow> Duration \<times> limit_error option \<times> Limiter" where
  "Allowed_deferred r =
     (case r of (d, err, l) \<Rightarrow>
        (d, err,
         if err = None then l\<lparr>totalAllowed := totalAllowed l + 1\<rparr>
         else l\<lparr>totalBlocked := totalBlocked l + 1\<rparr>))"

text \<open>
  \<open>Allowed\<close>, statement by statement; \<open>now\<close> is the clock reading. The result is the
  duration, the error (\<open>None\<close> for Go's \<open>nil\<close>) and the limiter after the call.
\<close>

definition Allowed :: "int64 \<Rightarrow> Limiter \<Rightarrow> Duration \<times> limit_error option \<times> Limiter" where
  "Allowed now l0 =
     (let l1 = (if 3599 <s now - lastHour l0
                then l0\<lparr>reqPerHour := 0, lastHour := now\<rparr> else l0);
          l2 = l1\<lparr>reqPerHour := reqPerHour l1 + 1\<rparr>
      in if maxPerHour l2 <s reqPerHour l2 then
           (let d = time_Hour - time_Second * (now - lastHour l2)
            in Allowed_deferred (d, Some (ExceedsPerHour (reqPerHour l2) (maxPerHour l2) d), l2))
         else
           (let l3 = (if 59 <s now - lastMin l2
                      then l2\<lparr>reqPerMinute := 0, lastMin := now\<rparr> else l2);
                l4 = l3\<lparr>reqPerMinute := reqPerMinute l3 + 1\<rparr>
            in if maxPerMinute l4 <s reqPerMinute l4 then
                 (let d = time_Minute - time_Second * (now - lastMin l4)
                  in Allowed_deferred
                       (d, Some (ExceedsPerMinute (reqPerMinute l4) (maxPerMinute l4) d), l4))
               else
                 (let l5 = (if 0 <s now - lastSec l4
                            then l4\<lparr>lastSec := now, reqPerSecond := 0\<rparr> else l4);
                      l6 = l5\<lparr>reqPerSecond := reqPerSecond l5 + 1\<rparr>
                  in if maxPerSecond l6 <s reqPerSecond l6 then
                       (let d = time_Second - time_Second * (now - lastSec l6)
                        in Allowed_deferred
                             (d, Some (ExceedsPerSecond (reqPerSecond l6) (maxPerSecond l6) d), l6))
                     else Allowed_deferred (0, None, l6))))"

text \<open>A sequence of calls, one clock reading per call; the results are kept in order.\<close>

fun Allowed_calls ::
  "int64 list \<Rightarrow> Limiter \<Rightarrow> (Duration \<times> limit_error option) list \<times> Limiter" where
  "Allowed_calls [] l = ([], l)"
| "Allowed_calls (now # nows) l =
     (case Allowed now l of (d, err, l') \<Rightarrow>
        (case Allowed_calls nows l' of (rs, l'') \<Rightarrow> ((d, err) # rs, l'')))"

text \<open>
  What each window's check sees: the window start and the counter once the window has
  been reset (when due) and the call counted.
\<close>

definition hourStart :: "int64 \<Rightarrow> Limiter \<Rightarrow> int64" where
  "hourStart now l = (if 3599 <s now - lastHour l then now else lastHour l)"

definition hourCount :: "int64 \<Rightarrow> Limiter \<Rightarrow> int64" where
  "hourCount now l = (if 3599 <s now - lastHour l then 0 else reqPerHour l) + 1"

definition minStart :: "int64 \<Rightarrow> Limiter \<Rightarrow> int64" where
  "minStart now l = (if 59 <s now - lastMin l then now else lastMin l)"

definition minCount :: "int64 \<Rightarrow> Limiter \<Rightarrow> int64" where
  "minCount now l = (if 59 <s now - lastMin l then 0 else reqPerMinute l) + 1"

definition secStart :: "int64 \<Rightarrow> Limiter \<Rightarrow> int64" where
  "secStart now l = (if 0 <s now - lastSec l then now else lastSec l)"

definition secCount :: "int64 \<Rightarrow> Limiter \<Rightarrow> int64" where
  "secCount now l = (if 0 <s now - lastSec l then 0 else reqPerSecond l) + 1"

definition hourExceeded :: "int64 \<Rightarrow> Limiter \<Rightarrow> bool" where
  "hourExceeded now l = (maxPerHour l <s hourCount now l)"

definition minExceeded :: "int64 \<Rightarrow> Limiter \<Rightarrow> bool" where
  "minExceeded now l = (maxPerMinute l <s minCount now l)"

definition secExceeded :: "int64 \<Rightarrow> Limiter \<Rightarrow> bool" where
  "secExceeded now l = (maxPerSecond l <s secCount now l)"

text \<open>A limiter that has used up its per-second allowance at time 100.\<close>

definition limiter_at_limit :: Limiter where
  "limiter_at_limit =
     \<lparr> maxPerSecond = 3, maxPerMinute = 10, maxPerHour = 10,
       reqPerSecond = 3, reqPerMinute = 3, reqPerHour = 3,
       lastSec = 100, lastMin = 100, lastHour = 100,
       totalAllowed = 3, totalBlocked = 0 \<rparr>"

text \<open>Limiters in which several windows are exceeded at time 100.\<close>

definition limiter_all_exceeded :: Limiter where
  "limiter_all_exceeded =
     \<lparr> maxPerSecond = 1, maxPerMinute = 2, maxPerHour = 3,
       reqPerSecond = 5, reqPerMinute = 5, reqPerHour = 5,
       lastSec = 100, lastMin = 100, lastHour = 100,
       totalAllowed = 3, totalBlocked = 2 \<rparr>"

definition limiter_minute_exceeded :: Limiter where
  "limiter_minute_exceeded =
     \<lparr> maxPerSecond = 0, maxPerMinute = 2, maxPerHour = 30,
       reqPerSecond = 5, reqPerMinute = 5, reqPerHour = 5,
       lastSec = 90, lastMin = 90, lastHour = 90,
       totalAllowed = 2, totalBlocked = 3 \<rparr>"

text \<open>
  A limiter whose hour maximum is exceeded and whose windows all started at time 100,
  called at time 1000: the minute and second boundaries have long passed.
\<close>

definition limiter_hour_exceeded :: Limiter where
  "limiter_hour_exceeded =
     \<lparr> maxPerSecond = 10, maxPerMinute = 10, maxPerHour = 3,
       reqPerSecond = 5, reqPerMinute = 5, reqPerHour = 5,
       lastSec = 100, lastMin = 100, lastHour = 100,
       totalAllowed = 3, totalBlocked = 2 \<rparr>"

text \<open>
  The three window counters are non-negative and at most \<open>n\<close>: what holds after \<open>n\<close>
  calls on a fresh limiter, as long as no counter has wrapped around.
\<close>

definition counters_within :: "int \<Rightarrow> Limiter \<Rightarrow> bool" where
  "counters_within n l =
     (0 \<le> sint (reqPerHour l) \<and> sint (reqPerHour l) \<le> n \<and>
      0 \<le> sint (reqPerMinute l) \<and> sint (reqPerMinute l) \<le> n \<and>
      0 \<le> sint (reqPerSecond l) \<and> sint (reqPerSecond l) \<le> n)"

section \<open>The limiter registry and the admission middleware (ratelimit.go)\<close>

subsection \<open>The helpers of the limiter\<close>

text \<open>
  The variadic \<open>max\<close> of ratelimit.go: \<open>m := vs[0]\<close>, then the loop over \<open>vs[1:]\<close>. Every
  call in the file passes at least one value; the first one is the first parameter here.
\<close>

definition max_vs :: "int64 \<Rightarrow> int64 list \<Rightarrow> int64" where
  "max_vs v0 vs = fold (\<lambda>v m. if m <s v then v else m) vs v0"

text \<open>\<open>LastAction\<close> is \<open>time.Unix(max(lastSec, lastMin, lastHour), 0)\<close>; this is its Unix second.\<close>

definition LastAction :: "Limiter \<Rightarrow> int64" where
  "LastAction l = max_vs (lastSec l) [lastMin l, lastHour l]"

text \<open>\<open>RequestsLeft\<close> returns \<open>(perSecond, perMinute, perHour)\<close>.\<close>

definition RequestsLeft :: "Limiter \<Rightarrow> int64 \<times> int64 \<times> int64" where
  "RequestsLeft l =
     (max_vs 0 [maxPerSecond l - reqPerSecond l],
      max_vs 0 [maxPerMinute l - reqPerMinute l],
      max_vs 0 [maxPerHour l - reqPerHour l])"

subsection \<open>The registry\<close>

text \<open>
  The struct \<open>Limiters\<close>. Its map \<open>m\<close> (a concurrent map from caller key to \<open>*Limiter\<close>) is
  the field \<open>ls_m\<close>: a limiter is reached through the registry only, so the limiter a
  call updates is written back under its key. The three maxima are Go \<open>int\<close>s, taken
  as 64-bit. The field \<open>ctx\<close> is an interface value: \<open>None\<close> is Go's \<open>nil\<close>.
\<close>

datatype context_Context = context_Background

record Limiters =
  ls_ctx :: "context_Context option"
  ls_m :: "string \<rightharpoonup> Limiter"
  ls_maxPerSecond :: int64
  ls_maxPerMinute :: int64
  ls_maxPerHour :: int64

text \<open>
  \<open>NewLimiters\<close> fills in the three maxima and nothing else: its parameter \<open>ctx\<close> is
  never used, so the field \<open>ctx\<close> keeps its zero value \<open>nil\<close>. It then starts \<open>clean\<close> as
  a goroutine on the new registry (\<open>NewLimiters_clean\<close> below).
\<close>

definition NewLimiters :: "int64 \<Rightarrow> int64 \<Rightarrow> int64 \<Rightarrow> Limiters" where
  "NewLimiters maxS maxM maxH =
     \<lparr> ls_ctx = None, ls_m = Map.empty, ls_maxPerSecond = maxS, ls_maxPerMinute = maxM,
       ls_maxPerHour = maxH \<rparr>"

text \<open>
  \<open>Get\<close> is the map's get-or-create (\<open>MustGet\<close>): \<open>ts\<close> is the clock reading \<open>NewLimiter\<close>
  takes when the key is new.
\<close>

definition Limiters_Get :: "int64 \<Rightarrow> Limiters \<Rightarrow> string \<Rightarrow> Limiter \<times> Limiters" where
  "Limiters_Get ts ls key =
     (case ls_m ls key of
        Some l \<Rightarrow> (l, ls)
      | None \<Rightarrow>
          (let l = NewLimiter (ls_maxPerSecond ls) (ls_maxPerMinute ls) (ls_maxPerHour ls) ts
           in (l, ls\<lparr>ls_m := (ls_m ls)(key \<mapsto> l)\<rparr>)))"

subsection \<open>The background sweep\<close>

text \<open>The two constants of \<open>clean\<close>: the idle threshold and the period of its ticker.\<close>

definition checkDuration :: Duration where
  "checkDuration = time_Hour + time_Minute * 30"


text \<open>
  The body of \<open>clean\<close> for one tick received from the ticker: \<open>t\<close> is the tick's time and
  \<open>keys\<close> what \<open>ls.m.Keys()\<close> returned. Each key's limiter is looked up and the key deleted
  when \<open>t.Sub(l.LastAction()) > checkDuration\<close>. The standard library's \<open>time.Time\<close> is
  left abstract: \<open>sub t sec\<close> stands for \<open>t.Sub(time.Unix(sec, 0))\<close>. Only the sweep
  deletes keys, so every key of \<open>keys\<close> is still in the map when it is looked up.
\<close>

definition clean_key ::
  "('t \<Rightarrow> int64 \<Rightarrow> Duration) \<Rightarrow> 't \<Rightarrow> string \<Rightarrow> (string \<rightharpoonup> Limiter) \<Rightarrow>
     (string \<rightharpoonup> Limiter)" where
  "clean_key sub t key mp =
     (case mp key of
        None \<Rightarrow> mp
      | Some l \<Rightarrow>
          if checkDuration <s sub t (LastAction l) then mp(key := None)
          else mp)"

definition clean_tick ::
  "('t \<Rightarrow> int64 \<Rightarrow> Duration) \<Rightarrow> 't \<Rightarrow> string list \<Rightarrow> Limiters \<Rightarrow> Limiters" where
  "clean_tick sub t keys ls = ls\<lparr>ls_m := fold (clean_key sub t) keys (ls_m ls)\<rparr>"

text \<open>
  What the \<open>select\<close> of \<open>clean\<close> can receive: the closing of \<open>ls.ctx.Done()\<close>, or a tick of
  the ticker with its time (and, for the body, the keys of the registry at that moment).
\<close>

datatype 't clean_event = CtxDone | Tick 't "string list"

datatype go_panic = NilPointerDereference

text \<open>
  \<open>clean\<close>: the loop \<open>for { select { case <-ls.ctx.Done(): return; case t := <-tk.C: ... } }\<close>
  run on the events in the order they arrive. Entering the \<open>select\<close> evaluates
  \<open>ls.ctx.Done()\<close> first; on a nil \<open>ls.ctx\<close> that call panics, before anything is
  received. The result is the panic, or the registry when \<open>clean\<close> returns (or has
  handled every event given).
\<close>

fun clean ::
  "('t \<Rightarrow> int64 \<Rightarrow> Duration) \<Rightarrow> 't clean_event list \<Rightarrow> Limiters \<Rightarrow> go_panic + Limiters" where
  "clean sub [] ls =
     (case ls_ctx ls of None \<Rightarrow> Inl NilPointerDereference | Some c \<Rightarrow> Inr ls)"
| "clean sub (e # es) ls =
     (case ls_ctx ls of
        None \<Rightarrow> Inl NilPointerDereference
      | Some c \<Rightarrow>
          (case e of
             CtxDone \<Rightarrow> Inr ls
           | Tick t keys \<Rightarrow> clean sub es (clean_tick sub t keys ls)))"

text \<open>The goroutine \<open>go ls.clean()\<close> that \<open>NewLimiters\<close> starts on the registry it returns.\<close>

definition NewLimiters_clean ::
  "('t \<Rightarrow> int64 \<Rightarrow> Duration) \<Rightarrow> 't clean_event list \<Rightarrow> int64 \<Rightarrow> int64 \<Rightarrow> int64 \<Rightarrow>
     go_panic + Limiters" where
  "NewLimiters_clean sub events maxS maxM maxH = clean sub events (NewLimiters maxS maxM maxH)"

subsection \<open>Formatting\<close>

text \<open>\<open>strconv.Itoa\<close> and the verb \<open>%d\<close>: the decimal digits, with a minus sign when negative.\<close>

function decimal :: "nat \<Rightarrow> string" where
  "decimal n =
     (if n < 10 then [''0123456789'' ! n]
      else decimal (n div 10) @ [''0123456789'' ! (n mod 10)])"
  by pat_completeness auto
termination
  by (relation "measure id") auto

declare decimal.simps [simp del]

definition Itoa :: "int \<Rightarrow> string" where
  "Itoa i = (if i < 0 then CHR ''-'' # decimal (nat (- i)) else decimal (nat i))"

text \<open>\<open>fmt.Sprintf("%ds, %dm, %dh", a, b, c)\<close>.\<close>

definition Sprintf_limits :: "int64 \<Rightarrow> int64 \<Rightarrow> int64 \<Rightarrow> string" where
  "Sprintf_limits a b c =
     Itoa (sint a) @ ''s, '' @ Itoa (sint b) @ ''m, '' @ Itoa (sint c) @ ''h''"

text \<open>
  Go's integer division and remainder truncate towards zero. \<open>Duration.Seconds\<close> is
  \<open>float64(d / Second) + float64(d % Second) / 1e9\<close>; it is taken here as the exact
  rational number. On a whole number of seconds the \<open>float64\<close> computation is exact
  as well (the quotient is below \<open>2 ^ 53\<close> and the remainder is 0), and so is the
  addition of 1 that follows. \<open>int(f)\<close> drops the fraction of \<open>f\<close>.
\<close>

definition quot :: "int \<Rightarrow> int \<Rightarrow> int" where
  "quot a b = sgn a * sgn b * (\<bar>a\<bar> div \<bar>b\<bar>)"

definition rem :: "int \<Rightarrow> int \<Rightarrow> int" where
  "rem a b = a - b * quot a b"

definition Duration_Seconds :: "Duration \<Rightarrow> rat" where
  "Duration_Seconds d =
     of_int (quot (sint d) 1000000000) + of_int (rem (sint d) 1000000000) / 1000000000"

definition int_of_float :: "rat \<Rightarrow> int" where
  "int_of_float f = (if 0 \<le> f then \<lfloor>f\<rfloor> else \<lceil>f\<rceil>)"

text \<open>The value \<open>int(d.Seconds() + 1)\<close> that the middleware renders into its headers.\<close>

definition retry_seconds :: "Duration \<Rightarrow> int" where
  "retry_seconds d = int_of_float (Duration_Seconds d + 1)"

text \<open>For comparison, the delay in seconds rounded up to a whole number.\<close>

definition ceiling_seconds :: "Duration \<Rightarrow> int" where
  "ceiling_seconds d = \<lceil>(of_int (sint d) :: rat) / 1000000000\<rceil>"

subsection \<open>The middleware\<close>

text \<open>
  Modelled from the spec: \<open>NewJSONErrorResponse\<close> and the type \<open>Response\<close> are not under
  src/. The spec has a structured JSON error body \<open>{status, message}\<close> sent with the HTTP
  status; the response is kept as the status and the error the message is made from. A
  handler returns \<open>Response option\<close>, \<open>None\<close> for Go's \<open>nil\<close>.
\<close>

datatype Response = JSONErrorResponse (resp_status: int) (resp_error: limit_error)

definition NewJSONErrorResponse :: "int \<Rightarrow> limit_error \<Rightarrow> Response" where
  "NewJSONErrorResponse status err = JSONErrorResponse status err"

definition StatusTooManyRequests :: int where
  "StatusTooManyRequests = 429"

text \<open>
  The handler that \<open>RateLimiter\<close> returns. \<open>limitsHeader\<close> and \<open>setHeaders\<close> are the
  variables it closes over; \<open>ls\<close> is the registry it closes over, returned updated. \<open>key\<close>
  is what \<open>limitKey(ctx)\<close> returned (by default the client's IP), \<open>h\<close> the response
  headers \<open>ctx.Header()\<close>, returned updated, \<open>ts\<close> and \<open>now\<close> the clock readings of
  \<open>NewLimiter\<close> (when the key is new) and of \<open>Allowed\<close>.
\<close>

definition RateLimiter_handler ::
  "string \<Rightarrow> bool \<Rightarrow> Limiters \<Rightarrow> int64 \<Rightarrow> int64 \<Rightarrow> string \<Rightarrow> (string \<rightharpoonup> string) \<Rightarrow>
     Response option \<times> (string \<rightharpoonup> string) \<times> Limiters" where
  "RateLimiter_handler limitsHeader setHeaders ls ts now key h =
     (case Limiters_Get ts ls key of (l, ls1) \<Rightarrow>
      (case Allowed now l of (d, err, l') \<Rightarrow>
       (case RequestsLeft l' of (sec, mn, hr) \<Rightarrow>
          (let ls2 = ls1\<lparr>ls_m := (ls_m ls1)(key \<mapsto> l')\<rparr>;
               h1 = (if setHeaders
                     then h(''X-Rate-Limit-Limit'' \<mapsto> limitsHeader,
                            ''X-Rate-Limit-Remaining'' \<mapsto> Sprintf_limits sec mn hr)
                     else h)
           in case err of
                None \<Rightarrow> (None, h1, ls2)
              | Some e \<Rightarrow>
                  (let ds = Itoa (retry_seconds d);
                       h2 = (if setHeaders
                             then h1(''X-Rate-Limit-Reset'' \<mapsto> ds, ''Retry-After'' \<mapsto> ds)
                             else h1)
                   in (Some (NewJSONErrorResponse StatusTooManyRequests e), h2, ls2))))))"

text \<open>\<open>RateLimiter\<close>: the registry it creates and the handler it returns.\<close>

definition RateLimiter ::
  "int64 \<Rightarrow> int64 \<Rightarrow> int64 \<Rightarrow> bool \<Rightarrow>
     Limiters \<times> (Limiters \<Rightarrow> int64 \<Rightarrow> int64 \<Rightarrow> string \<Rightarrow> (string \<rightharpoonup> string) \<Rightarrow>
       Response option \<times> (string \<rightharpoonup> string) \<times> Limiters)" where
  "RateLimiter maxS maxM maxH setHeaders =
     (NewLimiters maxS maxM maxH,
      RateLimiter_handler (Sprintf_limits maxS maxM maxH) setHeaders)"

text \<open>A registry whose only caller, \<open>10.0.0.1\<close>, has used up its per-second allowance.\<close>

definition registry_at_limit :: Limiters where
  "registry_at_limit =
     \<lparr> ls_ctx = None, ls_m = [''10.0.0.1'' \<mapsto> limiter_at_limit], ls_maxPerSecond = 3,
       ls_maxPerMinute = 10, ls_maxPerHour = 10 \<rparr>"

section \<open>The dispatch chain (groupHandlerChain.Serve)\<close>





















subsection \<open>The two phases in the spec's words\<close>










section \<open>The trie router (package router)\<close>

text \<open>
  Modelled from the spec: the package \<open>router\<close> (\<open>New\<close>, \<open>AddRoute\<close>, \<open>Match\<close>, \<open>Params\<close>)
  is not under src/, only its test \<open>TestBugGithub3\<close> is. The spec has: a pattern is a
  sequence of segments, each static (literal text), named (\<open>:x\<close>, captures one segment
  under the key \<open>x\<close>) or wildcard (\<open>*x\<close>, captures the rest of the path, last in the
  pattern); each node owns child nodes keyed by literal text plus at most one named
  child and at most one wildcard child; registering two different parameter names at
  the same position fails with a route conflict; matching splits the path into
  segments on \<open>/\<close> and at each node prefers the static child for the segment, then the
  named child, then the wildcard child, and fails when there is none; there is one
  trie per HTTP method; \<open>Params\<close> is the ordered list of captured (name, value) pairs.
\<close>

datatype segment = Static string | Named string | Wildcard string

text \<open>Splitting on \<open>/\<close>; paths are normalised before matching, so empty segments are dropped.\<close>

fun split_slash :: "string \<Rightarrow> string list" where
  "split_slash [] = [[]]"
| "split_slash (c # cs) =
     (if c = CHR ''/'' then [] # split_slash cs
      else (case split_slash cs of [] \<Rightarrow> [[c]] | w # ws \<Rightarrow> (c # w) # ws))"

definition path_segments :: "string \<Rightarrow> string list" where
  "path_segments p = filter (\<lambda>s. s \<noteq> []) (split_slash p)"

fun join_slash :: "string list \<Rightarrow> string" where
  "join_slash [] = []"
| "join_slash [s] = s"
| "join_slash (s # t # ss) = s @ ''/'' @ join_slash (t # ss)"

definition parse_segment :: "string \<Rightarrow> segment" where
  "parse_segment s =
     (case s of
        [] \<Rightarrow> Static []
      | c # name \<Rightarrow>
          if c = CHR '':'' then Named name
          else if c = CHR ''*'' then Wildcard name
          else Static s)"

definition parse_pattern :: "string \<Rightarrow> segment list" where
  "parse_pattern p = map parse_segment (path_segments p)"

type_synonym Params = "(string \<times> string) list"

text \<open>\<open>Params.Get\<close>: the value of the first pair with that name, the empty string without one.\<close>

definition Params_Get :: "Params \<Rightarrow> string \<Rightarrow> string" where
  "Params_Get ps name = (case map_of ps name of None \<Rightarrow> [] | Some v \<Rightarrow> v)"

text \<open>
  A trie node: the handler of the route that ends here, the static children by their
  literal text, the named child with its parameter name, and the wildcard child with
  its parameter name and handler (a wildcard ends its pattern).
\<close>

datatype 'h node =
  Node (node_handler: "'h option") (static_children: "string \<Rightarrow> 'h node option")
    (named_child: "(string \<times> 'h node) option") (wildcard_child: "(string \<times> 'h) option")

definition empty_node :: "'h node" where
  "empty_node = Node None (\<lambda>s. None) None None"

datatype route_error = RouteConflictError | MalformedPattern

text \<open>
  Registration of a pattern below a node. Two different names for the named child, or
  for the wildcard child, of one node are a conflict. A wildcard followed by more
  segments is not a pattern and is refused. Registering a pattern again replaces its
  handler. The spec also refuses a wildcard beside a sibling "that would shadow it"
  and does not say which siblings, of those the precedence rule lets coexist, do so;
  no such registration is refused here.
\<close>

fun insert_route :: "segment list \<Rightarrow> 'h \<Rightarrow> 'h node \<Rightarrow> route_error + 'h node" where
  "insert_route [] h (Node ho st nm wc) = Inr (Node (Some h) st nm wc)"
| "insert_route (Static s # rest) h (Node ho st nm wc) =
     (case insert_route rest h (case st s of None \<Rightarrow> empty_node | Some c \<Rightarrow> c) of
        Inl e \<Rightarrow> Inl e
      | Inr c' \<Rightarrow> Inr (Node ho (st(s \<mapsto> c')) nm wc))"
| "insert_route (Named x # rest) h (Node ho st nm wc) =
     (case nm of
        None \<Rightarrow>
          (case insert_route rest h empty_node of
             Inl e \<Rightarrow> Inl e
           | Inr c' \<Rightarrow> Inr (Node ho st (Some (x, c')) wc))
      | Some (y, c) \<Rightarrow>
          if x \<noteq> y then Inl RouteConflictError
          else (case insert_route rest h c of
                  Inl e \<Rightarrow> Inl e
                | Inr c' \<Rightarrow> Inr (Node ho st (Some (x, c')) wc)))"
| "insert_route (Wildcard x # rest) h (Node ho st nm wc) =
     (if rest \<noteq> [] then Inl MalformedPattern
      else (case wc of
              None \<Rightarrow> Inr (Node ho st nm (Some (x, h)))
            | Some (y, h') \<Rightarrow>
                if x \<noteq> y then Inl RouteConflictError
                else Inr (Node ho st nm (Some (x, h)))))"

text \<open>
  Matching the remaining segments below a node; \<open>ps\<close> are the parameters captured so
  far. There is no backtracking: the first kind of child that matches the segment is
  followed.
\<close>

fun match_node :: "'h node \<Rightarrow> string list \<Rightarrow> Params \<Rightarrow> ('h \<times> Params) option" where
  "match_node (Node ho st nm wc) [] ps =
     (case ho of None \<Rightarrow> None | Some h \<Rightarrow> Some (h, ps))"
| "match_node (Node ho st nm wc) (s # rest) ps =
     (case st s of
        Some c \<Rightarrow> match_node c rest ps
      | None \<Rightarrow>
          (case nm of
             Some (x, c) \<Rightarrow> match_node c rest (ps @ [(x, s)])
           | None \<Rightarrow>
               (case wc of
                  Some (x, h) \<Rightarrow> Some (h, ps @ [(x, join_slash (s # rest))])
                | None \<Rightarrow> None)))"

text \<open>The router: one trie per HTTP method, and the registered (group, method, path) triples.\<close>

record 'h Router =
  methods :: "string \<Rightarrow> 'h node option"
  routes :: "(string \<times> string \<times> string) list"

definition New :: "'h Router" where
  "New = \<lparr> methods = (\<lambda>m. None), routes = [] \<rparr>"

definition AddRoute ::
  "string \<Rightarrow> string \<Rightarrow> string \<Rightarrow> 'h \<Rightarrow> 'h Router \<Rightarrow> route_error + 'h Router" where
  "AddRoute grp method pattern h r =
     (case insert_route (parse_pattern pattern) h
             (case methods r method of None \<Rightarrow> empty_node | Some tree \<Rightarrow> tree) of
        Inl e \<Rightarrow> Inl e
      | Inr tree' \<Rightarrow>
          Inr (r\<lparr>methods := (methods r)(method \<mapsto> tree'),
                 routes := routes r @ [(grp, method, pattern)]\<rparr>))"

definition Match :: "'h Router \<Rightarrow> string \<Rightarrow> string \<Rightarrow> ('h \<times> Params) option" where
  "Match r method path =
     (case methods r method of
        None \<Rightarrow> None
      | Some tree \<Rightarrow> match_node tree (path_segments path) [])"

text \<open>Registering a list of routes (group, method, pattern, handler) in order.\<close>

fun AddRoutes ::
  "(string \<times> string \<times> string \<times> 'h) list \<Rightarrow> 'h Router \<Rightarrow> route_error + 'h Router" where
  "AddRoutes [] r = Inr r"
| "AddRoutes ((grp, method, pattern, h) # rs) r =
     (case AddRoute grp method pattern h r of
        Inl e \<Rightarrow> Inl e
      | Inr r' \<Rightarrow> AddRoutes rs r')"

text \<open>The handler found by following static children only.\<close>

fun static_lookup :: "'h node \<Rightarrow> string list \<Rightarrow> 'h option" where
  "static_lookup (Node ho st nm wc) [] = ho"
| "static_lookup (Node ho st nm wc) (s # rest) =
     (case st s of None \<Rightarrow> None | Some c \<Rightarrow> static_lookup c rest)"

definition router_static :: "'h Router \<Rightarrow> string \<Rightarrow> string list \<Rightarrow> 'h option" where
  "router_static r method segs =
     (case methods r method of None \<Rightarrow> None | Some tree \<Rightarrow> static_lookup tree segs)"

text \<open>
  A node with the static child \<open>list\<close>, the named child \<open>:id\<close> and the wildcard child
  \<open>*rest\<close>; handlers are named by strings.
\<close>

definition users_node :: "string node" where
  "users_node =
     Node None [''list'' \<mapsto> Node (Some ''list'') (\<lambda>s. None) None None]
       (Some (''id'', Node (Some ''show'') (\<lambda>s. None) None None)) (Some (''rest'', ''files''))"
section \<open>Verification of the rate limiter\<close>

subsection \<open>The outcomes of a call\<close>

lemma Allowed_cases:
  "Allowed now l =
    (if hourExceeded now l then
       (time_Hour - time_Second * (now - hourStart now l),
        Some (ExceedsPerHour (hourCount now l) (maxPerHour l)
                (time_Hour - time_Second * (now - hourStart now l))),
        l\<lparr>reqPerHour := hourCount now l, lastHour := hourStart now l,
          totalBlocked := totalBlocked l + 1\<rparr>)
     else if minExceeded now l then
       (time_Minute - time_Second * (now - minStart now l),
        Some (ExceedsPerMinute (minCount now l) (maxPerMinute l)
                (time_Minute - time_Second * (now - minStart now l))),
        l\<lparr>reqPerHour := hourCount now l, lastHour := hourStart now l,
          reqPerMinute := minCount now l, lastMin := minStart now l,
          totalBlocked := totalBlocked l + 1\<rparr>)
     else if secExceeded now l then
       (time_Second - time_Second * (now - secStart now l),
        Some (ExceedsPerSecond (secCount now l) (maxPerSecond l)
                (time_Second - time_Second * (now - secStart now l))),
        l\<lparr>reqPerHour := hourCount now l, lastHour := hourStart now l,
          reqPerMinute := minCount now l, lastMin := minStart now l,
          reqPerSecond := secCount now l, lastSec := secStart now l,
          totalBlocked := totalBlocked l + 1\<rparr>)
     else
       (0, None,
        l\<lparr>reqPerHour := hourCount now l, lastHour := hourStart now l,
          reqPerMinute := minCount now l, lastMin := minStart now l,
          reqPerSecond := secCount now l, lastSec := secStart now l,
          totalAllowed := totalAllowed l + 1\<rparr>))"
  by (cases "3599 <s now - lastHour l"; cases "59 <s now - lastMin l";
      cases "0 <s now - lastSec l";
      simp add: Allowed_def Allowed_deferred_def hourExceeded_def hourCount_def hourStart_def
        minExceeded_def minCount_def minStart_def secExceeded_def secCount_def secStart_def
        Let_def)

lemma Allowed_hour:
  assumes "hourExceeded now l"
  shows "Allowed now l =
    (time_Hour - time_Second * (now - hourStart now l),
     Some (ExceedsPerHour (hourCount now l) (maxPerHour l)
             (time_Hour - time_Second * (now - hourStart now l))),
     l\<lparr>reqPerHour := hourCount now l, lastHour := hourStart now l,
       totalBlocked := totalBlocked l + 1\<rparr>)"
  using assms by (simp add: Allowed_cases)

lemma Allowed_minute:
  assumes "\<not> hourExceeded now l" and "minExceeded now l"
  shows "Allowed now l =
    (time_Minute - time_Second * (now - minStart now l),
     Some (ExceedsPerMinute (minCount now l) (maxPerMinute l)
             (time_Minute - time_Second * (now - minStart now l))),
     l\<lparr>reqPerHour := hourCount now l, lastHour := hourStart now l,
       reqPerMinute := minCount now l, lastMin := minStart now l,
       totalBlocked := totalBlocked l + 1\<rparr>)"
  using assms by (simp add: Allowed_cases)

lemma Allowed_second:
  assumes "\<not> hourExceeded now l" and "\<not> minExceeded now l" and "secExceeded now l"
  shows "Allowed now l =
    (time_Second - time_Second * (now - secStart now l),
     Some (ExceedsPerSecond (secCount now l) (maxPerSecond l)
             (time_Second - time_Second * (now - secStart now l))),
     l\<lparr>reqPerHour := hourCount now l, lastHour := hourStart now l,
       reqPerMinute := minCount now l, lastMin := minStart now l,
       reqPerSecond := secCount now l, lastSec := secStart now l,
       totalBlocked := totalBlocked l + 1\<rparr>)"
  using assms by (simp add: Allowed_cases)

lemma Allowed_ok:
  assumes "\<not> hourExceeded now l" and "\<not> minExceeded now l" and "\<not> secExceeded now l"
  shows "Allowed now l =
    (0, None,
     l\<lparr>reqPerHour := hourCount now l, lastHour := hourStart now l,
       reqPerMinute := minCount now l, lastMin := minStart now l,
       reqPerSecond := secCount now l, lastSec := secStart now l,
       totalAllowed := totalAllowed l + 1\<rparr>)"
  using assms by (simp add: Allowed_cases)

subsection \<open>Signed 64-bit arithmetic without overflow\<close>

lemma sint_sub_nonneg:
  fixes a b :: int64
  assumes "0 \<le>s a" and "0 \<le>s b"
  shows "sint (a - b) = sint a - sint b"
proof -
  have a: "0 \<le> sint a" "sint a < 2 ^ 63"
    using assms(1) sint_lt [of a] by (simp_all add: word_sle_eq)
  have b: "0 \<le> sint b" "sint b < 2 ^ 63"
    using assms(2) sint_lt [of b] by (simp_all add: word_sle_eq)
  have "sint (a - b) = signed_take_bit 63 (sint a - sint b)"
    by (simp add: sint_word_ariths)
  also have "\<dots> = sint a - sint b"
    using a b by (intro signed_take_bit_int_eq_self) simp_all
  finally show ?thesis .
qed

lemma sint_add_one:
  fixes x :: int64
  assumes "0 \<le> sint x" and "sint x < 2 ^ 63 - 1"
  shows "sint (x + 1) = sint x + 1"
proof -
  have "sint (x + 1) = signed_take_bit 63 (sint x + 1)"
    by (simp add: sint_word_ariths)
  also have "\<dots> = sint x + 1"
    using assms by (intro signed_take_bit_int_eq_self) simp_all
  finally show ?thesis .
qed

lemma sint_time_Second: "sint time_Second = 1000000000"
  by (simp add: time_Second_def)
lemma sint_time_Minute: "sint time_Minute = 60000000000"
  by (simp add: time_Minute_def time_Second_def)
lemma sint_time_Hour: "sint time_Hour = 3600000000000"
  by (simp add: time_Hour_def time_Minute_def time_Second_def)

lemma sint_delay:
  fixes k D :: int64
  assumes "0 \<le> sint k" and "sint k \<le> 3599"
    and "0 \<le> sint D" and "sint D \<le> 3600000000000"
  shows "sint (D - time_Second * k) = sint D - 1000000000 * sint k"
proof -
  have m: "sint (time_Second * k) = signed_take_bit 63 (1000000000 * sint k)"
    by (simp add: sint_word_ariths sint_time_Second)
  have "signed_take_bit 63 (1000000000 * sint k) = 1000000000 * sint k"
    using assms(1,2) by (intro signed_take_bit_int_eq_self) simp_all
  with m have m': "sint (time_Second * k) = 1000000000 * sint k" by simp
  have "sint (D - time_Second * k) = signed_take_bit 63 (sint D - sint (time_Second * k))"
    by (simp only: sint_word_diff) simp
  also have "\<dots> = signed_take_bit 63 (sint D - 1000000000 * sint k)"
    by (simp only: m')
  also have "\<dots> = sint D - 1000000000 * sint k"
    using assms by (intro signed_take_bit_int_eq_self) simp_all
  finally show ?thesis .
qed

subsection \<open>Window boundaries and delays read as integers\<close>

lemma hour_reading:
  assumes "0 \<le>s lastHour l" and "lastHour l \<le>s now"
  shows "(3599 <s now - lastHour l) = (sint (lastHour l) + 3600 \<le> sint now)"
    and "sint (time_Hour - time_Second * (now - hourStart now l)) =
           1000000000 * (sint (hourStart now l) + 3600 - sint now)"
proof -
  have n: "0 \<le>s now" using assms by (simp add: word_sle_eq)
  have k: "sint (now - lastHour l) = sint now - sint (lastHour l)"
    using assms n by (simp add: sint_sub_nonneg)
  show "(3599 <s now - lastHour l) = (sint (lastHour l) + 3600 \<le> sint now)"
    by (simp add: word_sless_alt k) linarith
  show "sint (time_Hour - time_Second * (now - hourStart now l)) =
           1000000000 * (sint (hourStart now l) + 3600 - sint now)"
  proof (cases "3599 <s now - lastHour l")
    case True
    then show ?thesis by (simp add: hourStart_def sint_time_Hour)
  next
    case False
    then have "sint (now - lastHour l) \<le> 3599" by (simp add: word_sless_alt)
    moreover have "0 \<le> sint (now - lastHour l)"
      using assms(2) k by (simp add: word_sle_eq)
    ultimately have "sint (time_Hour - time_Second * (now - lastHour l)) =
        sint time_Hour - 1000000000 * sint (now - lastHour l)"
      by (intro sint_delay) (simp_all add: sint_time_Hour)
    with False show ?thesis by (simp add: hourStart_def sint_time_Hour k)
  qed
qed

lemma min_reading:
  assumes "0 \<le>s lastMin l" and "lastMin l \<le>s now"
  shows "(59 <s now - lastMin l) = (sint (lastMin l) + 60 \<le> sint now)"
    and "sint (time_Minute - time_Second * (now - minStart now l)) =
           1000000000 * (sint (minStart now l) + 60 - sint now)"
proof -
  have n: "0 \<le>s now" using assms by (simp add: word_sle_eq)
  have k: "sint (now - lastMin l) = sint now - sint (lastMin l)"
    using assms n by (simp add: sint_sub_nonneg)
  show "(59 <s now - lastMin l) = (sint (lastMin l) + 60 \<le> sint now)"
    by (simp add: word_sless_alt k) linarith
  show "sint (time_Minute - time_Second * (now - minStart now l)) =
           1000000000 * (sint (minStart now l) + 60 - sint now)"
  proof (cases "59 <s now - lastMin l")
    case True
    then show ?thesis by (simp add: minStart_def sint_time_Minute)
  next
    case False
    then have "sint (now - lastMin l) \<le> 3599" by (simp add: word_sless_alt)
    moreover have "0 \<le> sint (now - lastMin l)"
      using assms(2) k by (simp add: word_sle_eq)
    ultimately have "sint (time_Minute - time_Second * (now - lastMin l)) =
        sint time_Minute - 1000000000 * sint (now - lastMin l)"
      by (intro sint_delay) (simp_all add: sint_time_Minute)
    with False show ?thesis by (simp add: minStart_def sint_time_Minute k)
  qed
qed

lemma sec_reading:
  assumes "0 \<le>s lastSec l" and "lastSec l \<le>s now"
  shows "(0 <s now - lastSec l) = (sint (lastSec l) + 1 \<le> sint now)"
    and "sint (time_Second - time_Second * (now - secStart now l)) =
           1000000000 * (sint (secStart now l) + 1 - sint now)"
proof -
  have n: "0 \<le>s now" using assms by (simp add: word_sle_eq)
  have k: "sint (now - lastSec l) = sint now - sint (lastSec l)"
    using assms n by (simp add: sint_sub_nonneg)
  show "(0 <s now - lastSec l) = (sint (lastSec l) + 1 \<le> sint now)"
    by (simp add: word_sless_alt k) linarith
  show "sint (time_Second - time_Second * (now - secStart now l)) =
           1000000000 * (sint (secStart now l) + 1 - sint now)"
  proof (cases "0 <s now - lastSec l")
    case True
    then show ?thesis by (simp add: secStart_def sint_time_Second)
  next
    case False
    then have "sint (now - lastSec l) \<le> 3599" by (simp add: word_sless_alt)
    moreover have "0 \<le> sint (now - lastSec l)"
      using assms(2) k by (simp add: word_sle_eq)
    ultimately have "sint (time_Second - time_Second * (now - lastSec l)) =
        sint time_Second - 1000000000 * sint (now - lastSec l)"
      by (intro sint_delay) (simp_all add: sint_time_Second)
    with False show ?thesis by (simp add: secStart_def sint_time_Second k)
  qed
qed

subsection \<open>Repeated calls at one instant\<close>

lemma Allowed_nodue:
  assumes "\<not> 3599 <s now - lastHour l" and "\<not> 59 <s now - lastMin l"
    and "\<not> 0 <s now - lastSec l"
  shows "Allowed now l =
    (if maxPerHour l <s reqPerHour l + 1 then
       (time_Hour - time_Second * (now - lastHour l),
        Some (ExceedsPerHour (reqPerHour l + 1) (maxPerHour l)
                (time_Hour - time_Second * (now - lastHour l))),
        l\<lparr>reqPerHour := reqPerHour l + 1, totalBlocked := totalBlocked l + 1\<rparr>)
     else if maxPerMinute l <s reqPerMinute l + 1 then
       (time_Minute - time_Second * (now - lastMin l),
        Some (ExceedsPerMinute (reqPerMinute l + 1) (maxPerMinute l)
                (time_Minute - time_Second * (now - lastMin l))),
        l\<lparr>reqPerHour := reqPerHour l + 1, reqPerMinute := reqPerMinute l + 1,
          totalBlocked := totalBlocked l + 1\<rparr>)
     else if maxPerSecond l <s reqPerSecond l + 1 then
       (time_Second - time_Second * (now - lastSec l),
        Some (ExceedsPerSecond (reqPerSecond l + 1) (maxPerSecond l)
                (time_Second - time_Second * (now - lastSec l))),
        l\<lparr>reqPerHour := reqPerHour l + 1, reqPerMinute := reqPerMinute l + 1,
          reqPerSecond := reqPerSecond l + 1, totalBlocked := totalBlocked l + 1\<rparr>)
     else
       (0, None,
        l\<lparr>reqPerHour := reqPerHour l + 1, reqPerMinute := reqPerMinute l + 1,
          reqPerSecond := reqPerSecond l + 1, totalAllowed := totalAllowed l + 1\<rparr>))"
  using assms
  by (simp add: Allowed_cases hourExceeded_def hourCount_def hourStart_def
      minExceeded_def minCount_def minStart_def secExceeded_def secCount_def secStart_def)

lemma not_sless_small:
  fixes m :: int64
  assumes "5 \<le>s m"
  shows "\<not> m <s 1" "\<not> m <s 2" "\<not> m <s 3" "\<not> m <s 4" "\<not> m <s 5"
  using assms by (simp_all add: word_sless_alt word_sle_eq)

lemma three_cmp:
  "\<not> (3 :: int64) <s 1" "\<not> (3 :: int64) <s 2" "\<not> (3 :: int64) <s 3" "(3 :: int64) <s 4"
  by (simp_all add: word_sless_alt)

lemma fresh_limiter_three_per_second:
  assumes mm: "5 \<le>s mm" and mh: "5 \<le>s mh"
    and ts: "0 \<le>s ts" and t: "ts \<le>s t" and t': "t <s t'"
  shows "Allowed_calls [t, t, t, t, t'] (NewLimiter 3 mm mh ts) =
     ([(0, None), (0, None), (0, None),
       (time_Second, Some (ExceedsPerSecond 4 3 time_Second)), (0, None)],
      \<lparr> maxPerSecond = 3, maxPerMinute = mm, maxPerHour = mh,
        reqPerSecond = 1,
        reqPerMinute = (if 59 <s t' - (if 59 <s t - ts then t else ts) then 1 else 5),
        reqPerHour = (if 3599 <s t' - (if 3599 <s t - ts then t else ts) then 1 else 5),
        lastSec = t',
        lastMin = (if 59 <s t' - (if 59 <s t - ts then t else ts) then t'
                   else if 59 <s t - ts then t else ts),
        lastHour = (if 3599 <s t' - (if 3599 <s t - ts then t else ts) then t'
                    else if 3599 <s t - ts then t else ts),
        totalAllowed = 4, totalBlocked = 1 \<rparr>)"
proof -
  define hs where "hs = (if 3599 <s t - ts then t else ts)"
  define ms where "ms = (if 59 <s t - ts then t else ts)"
  define S :: "int64 \<Rightarrow> int64 \<Rightarrow> int64 \<Rightarrow> Limiter" where
    "S k a b = \<lparr> maxPerSecond = 3, maxPerMinute = mm, maxPerHour = mh,
        reqPerSecond = k, reqPerMinute = k, reqPerHour = k,
        lastSec = t, lastMin = ms, lastHour = hs,
        totalAllowed = a, totalBlocked = b \<rparr>" for k a b
  have t0: "0 \<le>s t" using ts t by (simp add: word_sle_eq)
  have t'0: "0 \<le>s t'" using t0 t' by (simp add: word_sle_eq word_sless_alt)
  have secstart: "ts = t" if "\<not> 0 <s t - ts"
  proof -
    have "sint t = sint ts"
      using that t ts t0 by (simp add: word_sless_alt word_sle_eq sint_sub_nonneg)
    then have "sint ts = sint t" by simp
    then show ?thesis by (rule signed_word_eqI)
  qed
  have nodue: "\<not> 3599 <s t - hs" "\<not> 59 <s t - ms" "\<not> 0 <s t - t"
    by (simp_all add: hs_def ms_def word_sless_alt)
  have due': "0 <s t' - t"
    using t' t0 t'0 by (simp add: word_sless_alt sint_sub_nonneg)
  have c1: "Allowed t (NewLimiter 3 mm mh ts) = (0, None, S 1 1 0)"
    using not_sless_small [OF mm] not_sless_small [OF mh] three_cmp secstart
    by (simp add: Allowed_cases hourExceeded_def hourCount_def hourStart_def
        minExceeded_def minCount_def minStart_def secExceeded_def secCount_def secStart_def
        NewLimiter_def S_def hs_def ms_def)
  have c2: "Allowed t (S 1 1 0) = (0, None, S 2 2 0)"
    using not_sless_small [OF mm] not_sless_small [OF mh] three_cmp nodue
    by (simp add: Allowed_nodue S_def)
  have c3: "Allowed t (S 2 2 0) = (0, None, S 3 3 0)"
    using not_sless_small [OF mm] not_sless_small [OF mh] three_cmp nodue
    by (simp add: Allowed_nodue S_def)
  have c4: "Allowed t (S 3 3 0) =
      (time_Second, Some (ExceedsPerSecond 4 3 time_Second), S 4 3 1)"
    using not_sless_small [OF mm] not_sless_small [OF mh] three_cmp nodue
    by (simp add: Allowed_nodue S_def)
  have c5: "Allowed t' (S 4 3 1) = (0, None,
      \<lparr> maxPerSecond = 3, maxPerMinute = mm, maxPerHour = mh,
        reqPerSecond = 1,
        reqPerMinute = (if 59 <s t' - ms then 1 else 5),
        reqPerHour = (if 3599 <s t' - hs then 1 else 5),
        lastSec = t',
        lastMin = (if 59 <s t' - ms then t' else ms),
        lastHour = (if 3599 <s t' - hs then t' else hs),
        totalAllowed = 4, totalBlocked = 1 \<rparr>)"
    using not_sless_small [OF mm] not_sless_small [OF mh] three_cmp due'
    by (simp add: Allowed_cases hourExceeded_def hourCount_def hourStart_def
        minExceeded_def minCount_def minStart_def secExceeded_def secCount_def secStart_def
        S_def)
  show ?thesis
    by (simp add: c1 c2 c3 c4 c5) (simp add: hs_def ms_def)
qed

subsection \<open>The sliding-window algorithm\<close>

text \<open>
  Claim C1, as amended. \<open>Allowed\<close> handles the hour window, then the minute window,
  then the second window, and returns at the first one whose maximum is exceeded. For
  each window it reaches (the hour window always, the minute window when the hour
  maximum is not exceeded, the second window when neither the hour nor the minute
  maximum is exceeded) it first resets the counter to zero and moves the window start
  to \<open>now\<close> when \<open>now\<close> is at least one window length (3600 s, 60 s, 1 s) after the
  window start, then counts the call; when the counter is above the window's maximum
  the call is rejected with the delay \<open>window length - (now - window start)\<close>, the time
  left to the window's boundary. With a clock that has not gone back past the window
  start (and non-negative Unix times), the wrapped 64-bit tests and delays are the
  integer ones. A fresh limiter with \<open>maxPerSecond = 3\<close> and minute and hour maxima of at
  least 5 allows three calls in one second, rejects the fourth with a delay of exactly
  one second, and allows a call in a later second.
\<close>

theorem C1_Allowed_sliding_windows:
  "(case Allowed now l of (d, err, l') \<Rightarrow>
      reqPerHour l' = hourCount now l \<and> lastHour l' = hourStart now l \<and>
      (hourExceeded now l \<longrightarrow>
         d = time_Hour - time_Second * (now - hourStart now l) \<and>
         err = Some (ExceedsPerHour (hourCount now l) (maxPerHour l) d)) \<and>
      (\<not> hourExceeded now l \<longrightarrow>
         reqPerMinute l' = minCount now l \<and> lastMin l' = minStart now l \<and>
         (minExceeded now l \<longrightarrow>
            d = time_Minute - time_Second * (now - minStart now l) \<and>
            err = Some (ExceedsPerMinute (minCount now l) (maxPerMinute l) d)) \<and>
         (\<not> minExceeded now l \<longrightarrow>
            reqPerSecond l' = secCount now l \<and> lastSec l' = secStart now l \<and>
            (secExceeded now l \<longrightarrow>
               d = time_Second - time_Second * (now - secStart now l) \<and>
               err = Some (ExceedsPerSecond (secCount now l) (maxPerSecond l) d)) \<and>
            (\<not> secExceeded now l \<longrightarrow> d = 0 \<and> err = None)))) \<and>
   (0 \<le>s lastHour l \<and> lastHour l \<le>s now \<longrightarrow>
      (3599 <s now - lastHour l) = (sint (lastHour l) + 3600 \<le> sint now) \<and>
      sint (time_Hour - time_Second * (now - hourStart now l)) =
        1000000000 * (sint (hourStart now l) + 3600 - sint now)) \<and>
   (0 \<le>s lastMin l \<and> lastMin l \<le>s now \<longrightarrow>
      (59 <s now - lastMin l) = (sint (lastMin l) + 60 \<le> sint now) \<and>
      sint (time_Minute - time_Second * (now - minStart now l)) =
        1000000000 * (sint (minStart now l) + 60 - sint now)) \<and>
   (0 \<le>s lastSec l \<and> lastSec l \<le>s now \<longrightarrow>
      (0 <s now - lastSec l) = (sint (lastSec l) + 1 \<le> sint now) \<and>
      sint (time_Second - time_Second * (now - secStart now l)) =
        1000000000 * (sint (secStart now l) + 1 - sint now)) \<and>
   (5 \<le>s mm \<and> 5 \<le>s mh \<and> 0 \<le>s ts \<and> ts \<le>s t \<and> t <s t' \<longrightarrow>
      fst (Allowed_calls [t, t, t, t, t'] (NewLimiter 3 mm mh ts)) =
        [(0, None), (0, None), (0, None),
         (time_Second, Some (ExceedsPerSecond 4 3 time_Second)), (0, None)] \<and>
      sint time_Second = 1000000000)"
proof (intro conjI)
  show "case Allowed now l of (d, err, l') \<Rightarrow>
      reqPerHour l' = hourCount now l \<and> lastHour l' = hourStart now l \<and>
      (hourExceeded now l \<longrightarrow>
         d = time_Hour - time_Second * (now - hourStart now l) \<and>
         err = Some (ExceedsPerHour (hourCount now l) (maxPerHour l) d)) \<and>
      (\<not> hourExceeded now l \<longrightarrow>
         reqPerMinute l' = minCount now l \<and> lastMin l' = minStart now l \<and>
         (minExceeded now l \<longrightarrow>
            d = time_Minute - time_Second * (now - minStart now l) \<and>
            err = Some (ExceedsPerMinute (minCount now l) (maxPerMinute l) d)) \<and>
         (\<not> minExceeded now l \<longrightarrow>
            reqPerSecond l' = secCount now l \<and> lastSec l' = secStart now l \<and>
            (secExceeded now l \<longrightarrow>
               d = time_Second - time_Second * (now - secStart now l) \<and>
               err = Some (ExceedsPerSecond (secCount now l) (maxPerSecond l) d)) \<and>
            (\<not> secExceeded now l \<longrightarrow> d = 0 \<and> err = None)))"
    by (simp add: Allowed_cases)
  show "0 \<le>s lastHour l \<and> lastHour l \<le>s now \<longrightarrow>
      (3599 <s now - lastHour l) = (sint (lastHour l) + 3600 \<le> sint now) \<and>
      sint (time_Hour - time_Second * (now - hourStart now l)) =
        1000000000 * (sint (hourStart now l) + 3600 - sint now)"
    using hour_reading [of l now] by blast
  show "0 \<le>s lastMin l \<and> lastMin l \<le>s now \<longrightarrow>
      (59 <s now - lastMin l) = (sint (lastMin l) + 60 \<le> sint now) \<and>
      sint (time_Minute - time_Second * (now - minStart now l)) =
        1000000000 * (sint (minStart now l) + 60 - sint now)"
    using min_reading [of l now] by blast
  show "0 \<le>s lastSec l \<and> lastSec l \<le>s now \<longrightarrow>
      (0 <s now - lastSec l) = (sint (lastSec l) + 1 \<le> sint now) \<and>
      sint (time_Second - time_Second * (now - secStart now l)) =
        1000000000 * (sint (secStart now l) + 1 - sint now)"
    using sec_reading [of l now] by blast
  show "5 \<le>s mm \<and> 5 \<le>s mh \<and> 0 \<le>s ts \<and> ts \<le>s t \<and> t <s t' \<longrightarrow>
      fst (Allowed_calls [t, t, t, t, t'] (NewLimiter 3 mm mh ts)) =
        [(0, None), (0, None), (0, None),
         (time_Second, Some (ExceedsPerSecond 4 3 time_Second)), (0, None)] \<and>
      sint time_Second = 1000000000"
    using fresh_limiter_three_per_second [of mm mh ts t t'] by (simp add: sint_time_Second)
qed



lemma limiter_at_limit_facts:
  "\<not> hourExceeded 100 limiter_at_limit" "\<not> minExceeded 100 limiter_at_limit"
  "secExceeded 100 limiter_at_limit"
  "secCount 100 limiter_at_limit = 4" "secStart 100 limiter_at_limit = 100"
  "minCount 100 limiter_at_limit = 4" "minStart 100 limiter_at_limit = 100"
  "hourCount 100 limiter_at_limit = 4" "hourStart 100 limiter_at_limit = 100"
  by (simp_all add: limiter_at_limit_def hourExceeded_def hourCount_def hourStart_def
      minExceeded_def minCount_def minStart_def secExceeded_def secCount_def secStart_def
      word_sless_alt)

theorem C1_Allowed_sliding_windows_witness:
  "\<not> hourExceeded 100 limiter_at_limit \<and> \<not> minExceeded 100 limiter_at_limit \<and>
   secExceeded 100 limiter_at_limit \<and>
   Allowed 100 limiter_at_limit =
     (time_Second, Some (ExceedsPerSecond 4 3 time_Second),
      limiter_at_limit\<lparr>reqPerHour := 4, reqPerMinute := 4, reqPerSecond := 4,
        totalBlocked := 1\<rparr>) \<and>
   0 \<le>s lastSec limiter_at_limit \<and> lastSec limiter_at_limit \<le>s 100 \<and>
   sint (time_Second - time_Second * (100 - secStart 100 limiter_at_limit)) = 1000000000 \<and>
   (5 :: int64) \<le>s 10 \<and> (0 :: int64) \<le>s 100 \<and> (100 :: int64) \<le>s 100 \<and>
   (100 :: int64) <s 101 \<and>
   fst (Allowed_calls [100, 100, 100, 100, 101] (NewLimiter 3 10 10 100)) =
     [(0, None), (0, None), (0, None),
      (time_Second, Some (ExceedsPerSecond 4 3 time_Second)), (0, None)]"
proof -
  have h: "(5 :: int64) \<le>s 10" "(0 :: int64) \<le>s 100" "(100 :: int64) \<le>s 100"
    "(100 :: int64) <s 101"
    by (simp_all add: word_sle_eq word_sless_alt)
  have g: "0 \<le>s lastSec limiter_at_limit" "lastSec limiter_at_limit \<le>s 100"
    by (simp_all add: limiter_at_limit_def word_sle_eq)
  note c = C1_Allowed_sliding_windows [of 100 limiter_at_limit 10 10 100 100 101]
  have a: "Allowed 100 limiter_at_limit =
     (time_Second, Some (ExceedsPerSecond 4 3 time_Second),
      limiter_at_limit\<lparr>reqPerHour := 4, reqPerMinute := 4, reqPerSecond := 4,
        totalBlocked := 1\<rparr>)"
    using c limiter_at_limit_facts
    by (cases "Allowed 100 limiter_at_limit")
      (simp add: Allowed_cases limiter_at_limit_def)
  have s: "sint (time_Second - time_Second * (100 - secStart 100 limiter_at_limit)) = 1000000000"
    using c g by (simp add: limiter_at_limit_facts)
  have r: "fst (Allowed_calls [100, 100, 100, 100, 101] (NewLimiter 3 10 10 100)) =
     [(0, None), (0, None), (0, None),
      (time_Second, Some (ExceedsPerSecond 4 3 time_Second)), (0, None)]"
    using c h by blast
  show ?thesis using a s r h g limiter_at_limit_facts by simp
qed

text \<open>
  Claim C1 as stated has every window reset and counted by every call. A call at time
  1000 that the hour window rejects returns before the minute and second windows are
  looked at: both boundaries have passed since their windows started at time 100, and
  the call leaves their counters at 5 and their starts at 100, where a reset and a
  count would give 1 and 1000.
\<close>

theorem C1_Allowed_sliding_windows_counterexample:
  "59 <s 1000 - lastMin limiter_hour_exceeded \<and>
   0 <s 1000 - lastSec limiter_hour_exceeded \<and>
   minCount 1000 limiter_hour_exceeded = 1 \<and> minStart 1000 limiter_hour_exceeded = 1000 \<and>
   secCount 1000 limiter_hour_exceeded = 1 \<and> secStart 1000 limiter_hour_exceeded = 1000 \<and>
   Allowed 1000 limiter_hour_exceeded =
     (2700000000000, Some (ExceedsPerHour 6 3 2700000000000),
      limiter_hour_exceeded\<lparr>reqPerHour := 6, totalBlocked := 3\<rparr>) \<and>
   reqPerMinute (snd (snd (Allowed 1000 limiter_hour_exceeded))) = 5 \<and>
   lastMin (snd (snd (Allowed 1000 limiter_hour_exceeded))) = 100 \<and>
   reqPerSecond (snd (snd (Allowed 1000 limiter_hour_exceeded))) = 5 \<and>
   lastSec (snd (snd (Allowed 1000 limiter_hour_exceeded))) = 100 \<and>
   reqPerMinute (snd (snd (Allowed 1000 limiter_hour_exceeded))) \<noteq>
     minCount 1000 limiter_hour_exceeded \<and>
   lastMin (snd (snd (Allowed 1000 limiter_hour_exceeded))) \<noteq>
     minStart 1000 limiter_hour_exceeded \<and>
   reqPerSecond (snd (snd (Allowed 1000 limiter_hour_exceeded))) \<noteq>
     secCount 1000 limiter_hour_exceeded \<and>
   lastSec (snd (snd (Allowed 1000 limiter_hour_exceeded))) \<noteq>
     secStart 1000 limiter_hour_exceeded"
proof -
  have d: "59 <s 1000 - lastMin limiter_hour_exceeded"
    "0 <s 1000 - lastSec limiter_hour_exceeded"
    "\<not> 3599 <s 1000 - lastHour limiter_hour_exceeded"
    by (simp_all add: limiter_hour_exceeded_def word_sless_alt)
  have c: "minCount 1000 limiter_hour_exceeded = 1" "minStart 1000 limiter_hour_exceeded = 1000"
    "secCount 1000 limiter_hour_exceeded = 1" "secStart 1000 limiter_hour_exceeded = 1000"
    "hourCount 1000 limiter_hour_exceeded = 6" "hourStart 1000 limiter_hour_exceeded = 100"
    using d by (simp_all add: minCount_def minStart_def secCount_def secStart_def
        hourCount_def hourStart_def) (simp_all add: limiter_hour_exceeded_def)
  have e: "hourExceeded 1000 limiter_hour_exceeded"
    by (simp add: hourExceeded_def c) (simp add: limiter_hour_exceeded_def word_sless_alt)
  have a: "Allowed 1000 limiter_hour_exceeded =
     (2700000000000, Some (ExceedsPerHour 6 3 2700000000000),
      limiter_hour_exceeded\<lparr>reqPerHour := 6, totalBlocked := 3\<rparr>)"
    by (simp add: Allowed_hour [OF e] c)
      (simp add: limiter_hour_exceeded_def time_Hour_def time_Minute_def time_Second_def)
  show ?thesis
    unfolding a using d(1,2) c(1-4) by (simp add: limiter_hour_exceeded_def)
qed

subsection \<open>The order of the checks\<close>

lemma limiter_all_exceeded_facts:
  "hourExceeded 100 limiter_all_exceeded" "minExceeded 100 limiter_all_exceeded"
  "secExceeded 100 limiter_all_exceeded"
  "hourCount 100 limiter_all_exceeded = 6" "hourStart 100 limiter_all_exceeded = 100"
  by (simp_all add: limiter_all_exceeded_def hourExceeded_def hourCount_def hourStart_def
      minExceeded_def minCount_def minStart_def secExceeded_def secCount_def secStart_def
      word_sless_alt)

lemma limiter_minute_exceeded_facts:
  "\<not> hourExceeded 100 limiter_minute_exceeded" "minExceeded 100 limiter_minute_exceeded"
  "secExceeded 100 limiter_minute_exceeded"
  "hourCount 100 limiter_minute_exceeded = 6" "hourStart 100 limiter_minute_exceeded = 90"
  "minCount 100 limiter_minute_exceeded = 6" "minStart 100 limiter_minute_exceeded = 90"
  by (simp_all add: limiter_minute_exceeded_def hourExceeded_def hourCount_def hourStart_def
      minExceeded_def minCount_def minStart_def secExceeded_def secCount_def secStart_def
      word_sless_alt)

text \<open>
  Claim C4. The hour window is checked before the minute window, and the minute window
  before the second window; the first window whose counter (after the reset, when due,
  and the increment) is above its maximum decides the error and the delay, whatever the
  finer windows would have said. \<open>minExceeded\<close> and \<open>secExceeded\<close> are what the finer
  checks would find on the limiter as it is when the call starts.
\<close>

theorem C4_coarsest_window_first:
  "(hourExceeded now l \<longrightarrow>
      Allowed now l =
        (time_Hour - time_Second * (now - hourStart now l),
         Some (ExceedsPerHour (hourCount now l) (maxPerHour l)
                 (time_Hour - time_Second * (now - hourStart now l))),
         l\<lparr>reqPerHour := hourCount now l, lastHour := hourStart now l,
           totalBlocked := totalBlocked l + 1\<rparr>)) \<and>
   (\<not> hourExceeded now l \<and> minExceeded now l \<longrightarrow>
      Allowed now l =
        (time_Minute - time_Second * (now - minStart now l),
         Some (ExceedsPerMinute (minCount now l) (maxPerMinute l)
                 (time_Minute - time_Second * (now - minStart now l))),
         l\<lparr>reqPerHour := hourCount now l, lastHour := hourStart now l,
           reqPerMinute := minCount now l, lastMin := minStart now l,
           totalBlocked := totalBlocked l + 1\<rparr>)) \<and>
   (\<not> hourExceeded now l \<and> \<not> minExceeded now l \<and> secExceeded now l \<longrightarrow>
      Allowed now l =
        (time_Second - time_Second * (now - secStart now l),
         Some (ExceedsPerSecond (secCount now l) (maxPerSecond l)
                 (time_Second - time_Second * (now - secStart now l))),
         l\<lparr>reqPerHour := hourCount now l, lastHour := hourStart now l,
           reqPerMinute := minCount now l, lastMin := minStart now l,
           reqPerSecond := secCount now l, lastSec := secStart now l,
           totalBlocked := totalBlocked l + 1\<rparr>))"
  using Allowed_hour [of now l] Allowed_minute [of now l] Allowed_second [of now l]
  by blast

theorem C4_coarsest_window_first_witness:
  "hourExceeded 100 limiter_all_exceeded \<and> minExceeded 100 limiter_all_exceeded \<and>
   secExceeded 100 limiter_all_exceeded \<and>
   Allowed 100 limiter_all_exceeded =
     (time_Hour, Some (ExceedsPerHour 6 3 time_Hour),
      limiter_all_exceeded\<lparr>reqPerHour := 6, totalBlocked := 3\<rparr>) \<and>
   \<not> hourExceeded 100 limiter_minute_exceeded \<and> minExceeded 100 limiter_minute_exceeded \<and>
   secExceeded 100 limiter_minute_exceeded \<and>
   Allowed 100 limiter_minute_exceeded =
     (50000000000, Some (ExceedsPerMinute 6 2 50000000000),
      limiter_minute_exceeded\<lparr>reqPerHour := 6, reqPerMinute := 6, totalBlocked := 4\<rparr>)"
proof -
  have a: "Allowed 100 limiter_all_exceeded =
     (time_Hour, Some (ExceedsPerHour 6 3 time_Hour),
      limiter_all_exceeded\<lparr>reqPerHour := 6, totalBlocked := 3\<rparr>)"
    using C4_coarsest_window_first [of 100 limiter_all_exceeded] limiter_all_exceeded_facts
    by (simp add: limiter_all_exceeded_def)
  have b: "Allowed 100 limiter_minute_exceeded =
     (50000000000, Some (ExceedsPerMinute 6 2 50000000000),
      limiter_minute_exceeded\<lparr>reqPerHour := 6, reqPerMinute := 6, totalBlocked := 4\<rparr>)"
    using C4_coarsest_window_first [of 100 limiter_minute_exceeded]
      limiter_minute_exceeded_facts
    by (simp add: limiter_minute_exceeded_def time_Minute_def time_Second_def)
  show ?thesis
    using a b limiter_all_exceeded_facts limiter_minute_exceeded_facts by simp
qed

subsection \<open>What a rejected call leaves unchanged\<close>

text \<open>
  Claim C9. A call rejected by the hour window leaves the minute and second counters and
  window starts as they were; a call rejected by the minute window leaves the second
  counter and window start as they were and has counted the call in the hour and minute
  counters; a call rejected by the second window has counted the call in all three
  counters. The error names the rejecting window.
\<close>

theorem C9_finer_windows_untouched:
  "(hourExceeded now l \<longrightarrow>
      (case Allowed now l of (d, err, l') \<Rightarrow>
         err = Some (ExceedsPerHour (hourCount now l) (maxPerHour l) d) \<and>
         reqPerMinute l' = reqPerMinute l \<and> lastMin l' = lastMin l \<and>
         reqPerSecond l' = reqPerSecond l \<and> lastSec l' = lastSec l \<and>
         reqPerHour l' = (if 3599 <s now - lastHour l then 0 else reqPerHour l) + 1)) \<and>
   (\<not> hourExceeded now l \<and> minExceeded now l \<longrightarrow>
      (case Allowed now l of (d, err, l') \<Rightarrow>
         err = Some (ExceedsPerMinute (minCount now l) (maxPerMinute l) d) \<and>
         reqPerSecond l' = reqPerSecond l \<and> lastSec l' = lastSec l \<and>
         reqPerMinute l' = (if 59 <s now - lastMin l then 0 else reqPerMinute l) + 1 \<and>
         reqPerHour l' = (if 3599 <s now - lastHour l then 0 else reqPerHour l) + 1)) \<and>
   (\<not> hourExceeded now l \<and> \<not> minExceeded now l \<and> secExceeded now l \<longrightarrow>
      (case Allowed now l of (d, err, l') \<Rightarrow>
         err = Some (ExceedsPerSecond (secCount now l) (maxPerSecond l) d) \<and>
         reqPerSecond l' = (if 0 <s now - lastSec l then 0 else reqPerSecond l) + 1 \<and>
         reqPerMinute l' = (if 59 <s now - lastMin l then 0 else reqPerMinute l) + 1 \<and>
         reqPerHour l' = (if 3599 <s now - lastHour l then 0 else reqPerHour l) + 1)) \<and>
   (case Allowed now l of (d, err, l') \<Rightarrow>
      (case err of
         None \<Rightarrow> \<not> hourExceeded now l \<and> \<not> minExceeded now l \<and> \<not> secExceeded now l
       | Some (ExceedsPerHour c m w) \<Rightarrow> hourExceeded now l
       | Some (ExceedsPerMinute c m w) \<Rightarrow> \<not> hourExceeded now l \<and> minExceeded now l
       | Some (ExceedsPerSecond c m w) \<Rightarrow>
           \<not> hourExceeded now l \<and> \<not> minExceeded now l \<and> secExceeded now l))"
  by (simp add: Allowed_cases hourCount_def minCount_def secCount_def)

theorem C9_finer_windows_untouched_witness:
  "hourExceeded 100 limiter_all_exceeded \<and>
   reqPerMinute (snd (snd (Allowed 100 limiter_all_exceeded))) = 5 \<and>
   lastMin (snd (snd (Allowed 100 limiter_all_exceeded))) = 100 \<and>
   reqPerSecond (snd (snd (Allowed 100 limiter_all_exceeded))) = 5 \<and>
   lastSec (snd (snd (Allowed 100 limiter_all_exceeded))) = 100 \<and>
   reqPerHour (snd (snd (Allowed 100 limiter_all_exceeded))) = 6 \<and>
   \<not> hourExceeded 100 limiter_minute_exceeded \<and> minExceeded 100 limiter_minute_exceeded \<and>
   reqPerSecond (snd (snd (Allowed 100 limiter_minute_exceeded))) = 5 \<and>
   lastSec (snd (snd (Allowed 100 limiter_minute_exceeded))) = 90 \<and>
   reqPerMinute (snd (snd (Allowed 100 limiter_minute_exceeded))) = 6 \<and>
   reqPerHour (snd (snd (Allowed 100 limiter_minute_exceeded))) = 6 \<and>
   \<not> hourExceeded 100 limiter_at_limit \<and> \<not> minExceeded 100 limiter_at_limit \<and>
   secExceeded 100 limiter_at_limit \<and>
   reqPerSecond (snd (snd (Allowed 100 limiter_at_limit))) = 4 \<and>
   reqPerMinute (snd (snd (Allowed 100 limiter_at_limit))) = 4 \<and>
   reqPerHour (snd (snd (Allowed 100 limiter_at_limit))) = 4"
proof -
  have n: "\<not> (3599 :: int64) <s 100 - 100" "\<not> (59 :: int64) <s 100 - 100"
    "\<not> (0 :: int64) <s 100 - 100" "\<not> (3599 :: int64) <s 100 - 90"
    "\<not> (59 :: int64) <s 100 - 90"
    by (simp_all add: word_sless_alt)
  have a: "reqPerMinute (snd (snd (Allowed 100 limiter_all_exceeded))) = 5 \<and>
   lastMin (snd (snd (Allowed 100 limiter_all_exceeded))) = 100 \<and>
   reqPerSecond (snd (snd (Allowed 100 limiter_all_exceeded))) = 5 \<and>
   lastSec (snd (snd (Allowed 100 limiter_all_exceeded))) = 100 \<and>
   reqPerHour (snd (snd (Allowed 100 limiter_all_exceeded))) = 6"
    using C9_finer_windows_untouched [where now = 100 and l = limiter_all_exceeded,
        THEN conjunct1] limiter_all_exceeded_facts(1) n
    by (cases "Allowed 100 limiter_all_exceeded") (simp add: limiter_all_exceeded_def)
  have b: "reqPerSecond (snd (snd (Allowed 100 limiter_minute_exceeded))) = 5 \<and>
   lastSec (snd (snd (Allowed 100 limiter_minute_exceeded))) = 90 \<and>
   reqPerMinute (snd (snd (Allowed 100 limiter_minute_exceeded))) = 6 \<and>
   reqPerHour (snd (snd (Allowed 100 limiter_minute_exceeded))) = 6"
    using C9_finer_windows_untouched [where now = 100 and l = limiter_minute_exceeded,
        THEN conjunct2, THEN conjunct1] limiter_minute_exceeded_facts(1,2) n
    by (cases "Allowed 100 limiter_minute_exceeded") (simp add: limiter_minute_exceeded_def)
  have c: "reqPerSecond (snd (snd (Allowed 100 limiter_at_limit))) = 4 \<and>
   reqPerMinute (snd (snd (Allowed 100 limiter_at_limit))) = 4 \<and>
   reqPerHour (snd (snd (Allowed 100 limiter_at_limit))) = 4"
    using C9_finer_windows_untouched [where now = 100 and l = limiter_at_limit,
        THEN conjunct2, THEN conjunct2, THEN conjunct1] limiter_at_limit_facts(1,2,3) n
    by (cases "Allowed 100 limiter_at_limit") (simp add: limiter_at_limit_def)
  show ?thesis
    using a b c limiter_all_exceeded_facts(1) limiter_minute_exceeded_facts(1,2)
      limiter_at_limit_facts(1,2,3)
    by simp
qed

subsection \<open>The cumulative counters\<close>

lemma Allowed_totals:
  "(case Allowed now l of (d, err, l') \<Rightarrow>
      (err = None \<and> totalAllowed l' = totalAllowed l + 1 \<and> totalBlocked l' = totalBlocked l) \<or>
      (err \<noteq> None \<and> totalAllowed l' = totalAllowed l \<and> totalBlocked l' = totalBlocked l + 1))"
  by (simp add: Allowed_cases)

lemma Allowed_calls_totals:
  "(case Allowed_calls nows l of (rs, l') \<Rightarrow>
      length rs = length nows \<and>
      totalAllowed l' = totalAllowed l + of_nat (length (filter (\<lambda>r. snd r = None) rs)) \<and>
      totalBlocked l' = totalBlocked l + of_nat (length (filter (\<lambda>r. snd r \<noteq> None) rs)))"
proof (induction nows arbitrary: l)
  case Nil
  show ?case by simp
next
  case (Cons now nows)
  obtain d err l1 where a: "Allowed now l = (d, err, l1)"
    by (cases "Allowed now l") auto
  obtain rs l2 where b: "Allowed_calls nows l1 = (rs, l2)"
    by (cases "Allowed_calls nows l1") auto
  from Cons.IH [where l = l1] b have ih: "length rs = length nows"
    "totalAllowed l2 = totalAllowed l1 + of_nat (length (filter (\<lambda>r. snd r = None) rs))"
    "totalBlocked l2 = totalBlocked l1 + of_nat (length (filter (\<lambda>r. snd r \<noteq> None) rs))"
    by simp_all
  from Allowed_totals [where now = now and l = l] a
  have st: "(err = None \<and> totalAllowed l1 = totalAllowed l + 1 \<and> totalBlocked l1 = totalBlocked l) \<or>
      (err \<noteq> None \<and> totalAllowed l1 = totalAllowed l \<and> totalBlocked l1 = totalBlocked l + 1)"
    by simp
  then show ?case
    using a b ih by auto
qed

lemma sint_of_nat_small:
  assumes "int n < 2 ^ 63"
  shows "sint (of_nat n :: int64) = int n"
proof -
  have "sint (of_nat n :: int64) = signed_take_bit 63 (int n)"
    by (simp add: signed_of_nat)
  also have "\<dots> = int n"
    using assms by (intro signed_take_bit_int_eq_self) simp_all
  finally show ?thesis .
qed

text \<open>
  Claim C8. Each call to \<open>Allowed\<close> adds one to \<open>totalAllowed\<close> when it returns no error
  and one to \<open>totalBlocked\<close> when it returns an error, and leaves the other unchanged.
  After \<open>N\<close> calls on a limiter made by \<open>NewLimiter\<close>, \<open>totalAllowed\<close> is the number of
  calls without error, \<open>totalBlocked\<close> the number of calls with an error, and their sum is
  \<open>N\<close> (as 64-bit values; as an integer for \<open>N < 2 ^ 63\<close>).
\<close>

theorem C8_totals_count_calls:
  "(case Allowed now l of (d, err, l') \<Rightarrow>
      (err = None \<and> totalAllowed l' = totalAllowed l + 1 \<and> totalBlocked l' = totalBlocked l) \<or>
      (err \<noteq> None \<and> totalAllowed l' = totalAllowed l \<and> totalBlocked l' = totalBlocked l + 1)) \<and>
   (case Allowed_calls nows l of (rs, l') \<Rightarrow>
      totalAllowed l' + totalBlocked l' =
        totalAllowed l + totalBlocked l + of_nat (length nows)) \<and>
   (case Allowed_calls nows (NewLimiter maxS maxM maxH ts) of (rs, l') \<Rightarrow>
      totalAllowed l' = of_nat (length (filter (\<lambda>r. snd r = None) rs)) \<and>
      totalBlocked l' = of_nat (length (filter (\<lambda>r. snd r \<noteq> None) rs)) \<and>
      totalAllowed l' + totalBlocked l' = of_nat (length nows) \<and>
      (int (length nows) < 2 ^ 63 \<longrightarrow>
         sint (totalAllowed l' + totalBlocked l') = int (length nows)))"
proof (intro conjI)
  show "case Allowed now l of (d, err, l') \<Rightarrow>
      (err = None \<and> totalAllowed l' = totalAllowed l + 1 \<and> totalBlocked l' = totalBlocked l) \<or>
      (err \<noteq> None \<and> totalAllowed l' = totalAllowed l \<and> totalBlocked l' = totalBlocked l + 1)"
    by (rule Allowed_totals)
  have sum: "totalAllowed l' + totalBlocked l' = totalAllowed k + totalBlocked k + of_nat (length nows)"
    if "Allowed_calls nows k = (rs, l')" for k rs l'
  proof -
    from Allowed_calls_totals [where nows = nows and l = k] that
    have l: "length rs = length nows"
      and a: "totalAllowed l' = totalAllowed k + of_nat (length (filter (\<lambda>r. snd r = None) rs))"
      and b: "totalBlocked l' = totalBlocked k + of_nat (length (filter (\<lambda>r. snd r \<noteq> None) rs))"
      by simp_all
    have "length (filter (\<lambda>r. snd r = None) rs) + length (filter (\<lambda>r. snd r \<noteq> None) rs) =
        length rs"
      by (rule sum_length_filter_compl)
    then have "(of_nat (length (filter (\<lambda>r. snd r = None) rs)) :: int64) +
        of_nat (length (filter (\<lambda>r. snd r \<noteq> None) rs)) = of_nat (length nows)"
      unfolding l [symmetric] by (simp flip: of_nat_add)
    then show ?thesis
      by (simp add: a b algebra_simps)
  qed
  show "case Allowed_calls nows l of (rs, l') \<Rightarrow>
      totalAllowed l' + totalBlocked l' =
        totalAllowed l + totalBlocked l + of_nat (length nows)"
    using sum [of l] by (cases "Allowed_calls nows l") simp
  show "case Allowed_calls nows (NewLimiter maxS maxM maxH ts) of (rs, l') \<Rightarrow>
      totalAllowed l' = of_nat (length (filter (\<lambda>r. snd r = None) rs)) \<and>
      totalBlocked l' = of_nat (length (filter (\<lambda>r. snd r \<noteq> None) rs)) \<and>
      totalAllowed l' + totalBlocked l' = of_nat (length nows) \<and>
      (int (length nows) < 2 ^ 63 \<longrightarrow>
         sint (totalAllowed l' + totalBlocked l') = int (length nows))"
  proof (cases "Allowed_calls nows (NewLimiter maxS maxM maxH ts)")
    case (Pair rs l')
    from sum [OF Pair]
    have s: "totalAllowed l' + totalBlocked l' = of_nat (length nows)"
      by (simp add: NewLimiter_def)
    from Allowed_calls_totals [where nows = nows and l = "NewLimiter maxS maxM maxH ts"] Pair
    have "totalAllowed l' = of_nat (length (filter (\<lambda>r. snd r = None) rs))"
      "totalBlocked l' = of_nat (length (filter (\<lambda>r. snd r \<noteq> None) rs))"
      by (simp_all add: NewLimiter_def)
    then show ?thesis
      using Pair s by (simp add: sint_of_nat_small)
  qed
qed

theorem C8_totals_count_calls_witness:
  "(case Allowed_calls [100, 100, 100, 100, 101] (NewLimiter 3 10 10 100) of (rs, l') \<Rightarrow>
      int (length [100, 100, 100, 100, 101 :: int64]) < 2 ^ 63 \<and>
      sint (totalAllowed l' + totalBlocked l') = 5)"
proof -
  obtain rs l' where p: "Allowed_calls [100, 100, 100, 100, 101] (NewLimiter 3 10 10 100) = (rs, l')"
    by (cases "Allowed_calls [100, 100, 100, 100, 101] (NewLimiter 3 10 10 100)") blast
  have n: "int (length [100, 100, 100, 100, 101 :: int64]) < 2 ^ 63"
    by simp
  note c = C8_totals_count_calls [where nows = "[100, 100, 100, 100, 101]" and maxS = 3
      and maxM = 10 and maxH = 10 and ts = 100, THEN conjunct2, THEN conjunct2,
      unfolded p prod.case, THEN conjunct2, THEN conjunct2, THEN conjunct2]
  from c n have "sint (totalAllowed l' + totalBlocked l') =
      int (length [100, 100, 100, 100, 101 :: int64])"
    by (rule mp)
  then have "sint (totalAllowed l' + totalBlocked l') = 5"
    by simp
  with n show ?thesis
    unfolding p by simp
qed

subsection \<open>Fresh limiters\<close>

lemma count_bounds:
  fixes x :: int64
  assumes "0 \<le> sint x" and "sint x \<le> n" and "n < 2 ^ 63 - 1"
  shows "0 < sint ((if c then 0 else x) + 1)" and "sint ((if c then 0 else x) + 1) \<le> n + 1"
proof -
  have "sint (x + 1) = sint x + 1"
    using assms by (intro sint_add_one) simp_all
  then show "0 < sint ((if c then 0 else x) + 1)" and "sint ((if c then 0 else x) + 1) \<le> n + 1"
    using assms by simp_all
qed

lemma counts_within:
  assumes "counters_within n l" and "n < 2 ^ 63 - 1"
  shows "0 < sint (hourCount now l)" "sint (hourCount now l) \<le> n + 1"
    "0 < sint (minCount now l)" "sint (minCount now l) \<le> n + 1"
    "0 < sint (secCount now l)" "sint (secCount now l) \<le> n + 1"
proof -
  have h: "0 \<le> sint (reqPerHour l)" "sint (reqPerHour l) \<le> n"
    and m: "0 \<le> sint (reqPerMinute l)" "sint (reqPerMinute l) \<le> n"
    and s: "0 \<le> sint (reqPerSecond l)" "sint (reqPerSecond l) \<le> n"
    using assms(1) by (simp_all add: counters_within_def)
  show "0 < sint (hourCount now l)" "sint (hourCount now l) \<le> n + 1"
    unfolding hourCount_def by (rule count_bounds [OF h assms(2)])+
  show "0 < sint (minCount now l)" "sint (minCount now l) \<le> n + 1"
    unfolding minCount_def by (rule count_bounds [OF m assms(2)])+
  show "0 < sint (secCount now l)" "sint (secCount now l) \<le> n + 1"
    unfolding secCount_def by (rule count_bounds [OF s assms(2)])+
qed

lemma Allowed_counters_within:
  assumes "counters_within n l" and "n < 2 ^ 63 - 1"
  shows "counters_within (n + 1) (snd (snd (Allowed now l)))"
proof -
  note c = counts_within [OF assms, of now]
  have w: "counters_within (n + 1) l"
    using assms(1) by (simp add: counters_within_def)
  show ?thesis
    using c w by (simp add: Allowed_cases counters_within_def)
qed

lemma Allowed_keeps_maxima:
  "maxPerSecond (snd (snd (Allowed now l))) = maxPerSecond l"
  "maxPerMinute (snd (snd (Allowed now l))) = maxPerMinute l"
  "maxPerHour (snd (snd (Allowed now l))) = maxPerHour l"
  by (simp_all add: Allowed_cases)

lemma Allowed_zero_max_rejects:
  assumes "counters_within n l" and "n < 2 ^ 63 - 1"
    and "maxPerSecond l = 0 \<or> maxPerMinute l = 0 \<or> maxPerHour l = 0"
  shows "fst (snd (Allowed now l)) \<noteq> None"
proof -
  note c = counts_within [OF assms(1,2), of now]
  have "hourExceeded now l \<or> minExceeded now l \<or> secExceeded now l"
    using assms(3) c by (auto simp: hourExceeded_def minExceeded_def secExceeded_def word_sless_alt)
  then show ?thesis
    by (auto simp: Allowed_cases)
qed

lemma Allowed_calls_zero_max_rejects:
  assumes "counters_within n l" and "n + int (length nows) < 2 ^ 63"
    and "maxPerSecond l = 0 \<or> maxPerMinute l = 0 \<or> maxPerHour l = 0"
  shows "\<forall>r \<in> set (fst (Allowed_calls nows l)). snd r \<noteq> None"
  using assms
proof (induction nows arbitrary: l n)
  case Nil
  show ?case by simp
next
  case (Cons now nows)
  obtain d err l1 where a: "Allowed now l = (d, err, l1)"
    by (cases "Allowed now l") auto
  have n: "n < 2 ^ 63 - 1" using Cons.prems(2) by simp
  have e: "err \<noteq> None"
    using Allowed_zero_max_rejects [OF Cons.prems(1) n Cons.prems(3), of now] a by simp
  have w: "counters_within (n + 1) l1"
    using Allowed_counters_within [OF Cons.prems(1) n, of now] a by simp
  have z: "maxPerSecond l1 = 0 \<or> maxPerMinute l1 = 0 \<or> maxPerHour l1 = 0"
    using Allowed_keeps_maxima [of now l] a Cons.prems(3) by simp
  have "n + 1 + int (length nows) < 2 ^ 63" using Cons.prems(2) by simp
  from Cons.IH [OF w this z] have "\<forall>r \<in> set (fst (Allowed_calls nows l1)). snd r \<noteq> None" .
  then show ?case
    using a e by (cases "Allowed_calls nows l1") auto
qed

lemma NewLimiter_first_call:
  assumes "1 \<le>s maxS" and "1 \<le>s maxM" and "1 \<le>s maxH"
  shows "Allowed now (NewLimiter maxS maxM maxH ts) =
    (0, None,
     \<lparr> maxPerSecond = maxS, maxPerMinute = maxM, maxPerHour = maxH,
       reqPerSecond = 1, reqPerMinute = 1, reqPerHour = 1,
       lastSec = (if 0 <s now - ts then now else ts),
       lastMin = (if 59 <s now - ts then now else ts),
       lastHour = (if 3599 <s now - ts then now else ts),
       totalAllowed = 1, totalBlocked = 0 \<rparr>)"
proof -
  have "\<not> maxS <s 1" "\<not> maxM <s 1" "\<not> maxH <s 1"
    using assms by (simp_all add: word_sless_alt word_sle_eq)
  then show ?thesis
    by (simp add: Allowed_cases hourExceeded_def hourCount_def hourStart_def
        minExceeded_def minCount_def minStart_def secExceeded_def secCount_def secStart_def
        NewLimiter_def)
qed

text \<open>
  Claim C10. On a limiter fresh from \<open>NewLimiter\<close> with all three maxima at least 1, the
  first call to \<open>Allowed\<close>, at any clock reading, returns the duration 0 and no error.
  When one of the maxima is 0, every call of a sequence of calls on the fresh limiter is
  rejected (for fewer than \<open>2 ^ 63\<close> calls, so that no counter wraps around).
\<close>

theorem C10_fresh_limiter_first_call:
  "(1 \<le>s maxS \<and> 1 \<le>s maxM \<and> 1 \<le>s maxH \<longrightarrow>
      fst (Allowed now (NewLimiter maxS maxM maxH ts)) = 0 \<and>
      fst (snd (Allowed now (NewLimiter maxS maxM maxH ts))) = None) \<and>
   ((maxS = 0 \<or> maxM = 0 \<or> maxH = 0) \<and> int (length nows) < 2 ^ 63 \<longrightarrow>
      (\<forall>r \<in> set (fst (Allowed_calls nows (NewLimiter maxS maxM maxH ts))). snd r \<noteq> None))"
proof (intro conjI impI)
  assume "1 \<le>s maxS \<and> 1 \<le>s maxM \<and> 1 \<le>s maxH"
  then have a: "Allowed now (NewLimiter maxS maxM maxH ts) =
    (0, None,
     \<lparr> maxPerSecond = maxS, maxPerMinute = maxM, maxPerHour = maxH,
       reqPerSecond = 1, reqPerMinute = 1, reqPerHour = 1,
       lastSec = (if 0 <s now - ts then now else ts),
       lastMin = (if 59 <s now - ts then now else ts),
       lastHour = (if 3599 <s now - ts then now else ts),
       totalAllowed = 1, totalBlocked = 0 \<rparr>)"
    by (simp add: NewLimiter_first_call)
  show "fst (Allowed now (NewLimiter maxS maxM maxH ts)) = 0"
    by (simp add: a)
  show "fst (snd (Allowed now (NewLimiter maxS maxM maxH ts))) = None"
    by (simp add: a)
next
  assume h: "(maxS = 0 \<or> maxM = 0 \<or> maxH = 0) \<and> int (length nows) < 2 ^ 63"
  have w: "counters_within 0 (NewLimiter maxS maxM maxH ts)"
    by (simp add: counters_within_def NewLimiter_def)
  have z: "maxPerSecond (NewLimiter maxS maxM maxH ts) = 0 \<or>
      maxPerMinute (NewLimiter maxS maxM maxH ts) = 0 \<or>
      maxPerHour (NewLimiter maxS maxM maxH ts) = 0"
    using h by (simp add: NewLimiter_def)
  have n: "0 + int (length nows) < 2 ^ 63" using h by simp
  show "\<forall>r \<in> set (fst (Allowed_calls nows (NewLimiter maxS maxM maxH ts))). snd r \<noteq> None"
    by (rule Allowed_calls_zero_max_rejects [OF w n z])
qed

theorem C10_fresh_limiter_first_call_witness:
  "(1 :: int64) \<le>s 3 \<and> (1 :: int64) \<le>s 10 \<and>
   fst (Allowed 100 (NewLimiter 3 10 10 100)) = 0 \<and>
   fst (snd (Allowed 100 (NewLimiter 3 10 10 100))) = None \<and>
   int (length [100 :: int64]) < 2 ^ 63 \<and>
   fst (snd (Allowed 100 (NewLimiter 0 10 10 100))) \<noteq> None"
proof -
  have h: "(1 :: int64) \<le>s 3" "(1 :: int64) \<le>s 10"
    by (simp_all add: word_sle_eq)
  have n: "int (length [100 :: int64]) < 2 ^ 63" by simp
  have a: "fst (Allowed 100 (NewLimiter 3 10 10 100)) = 0 \<and>
      fst (snd (Allowed 100 (NewLimiter 3 10 10 100))) = None"
    using C10_fresh_limiter_first_call [where maxS = 3 and maxM = 10 and maxH = 10
        and now = 100 and ts = 100, THEN conjunct1] h
    by blast
  have "\<forall>r \<in> set (fst (Allowed_calls [100] (NewLimiter 0 10 10 100))). snd r \<noteq> None"
    using C10_fresh_limiter_first_call [where maxS = 0 and maxM = 10 and maxH = 10
        and nows = "[100]" and ts = 100, THEN conjunct2] n
    by blast
  then have b: "fst (snd (Allowed 100 (NewLimiter 0 10 10 100))) \<noteq> None"
    by (cases "Allowed 100 (NewLimiter 0 10 10 100)") simp
  show ?thesis using h n a b by blast
qed

section \<open>Verification of the registry and the middleware\<close>

subsection \<open>The background sweep\<close>



text \<open>
  \<open>clean\<close> on a registry whose \<open>ctx\<close> is nil panics whatever arrives, and every registry
  made by \<open>NewLimiters\<close> is one: the goroutine it starts never handles a tick.
\<close>

lemma clean_nil_ctx:
  "ls_ctx ls = None \<Longrightarrow> clean sub events ls = Inl NilPointerDereference"
  by (cases events) simp_all

lemma NewLimiters_clean_panics:
  "NewLimiters_clean sub events maxS maxM maxH = Inl NilPointerDereference"
  by (simp add: NewLimiters_clean_def clean_nil_ctx NewLimiters_def)

lemma Limiters_Get_ctx: "ls_ctx (snd (Limiters_Get ts ls key)) = ls_ctx ls"
  by (simp add: Limiters_Get_def Let_def split: option.splits)



subsection \<open>The handler\<close>

lemma handler_unfold:
  assumes "Limiters_Get ts ls key = (l, ls1)" and "Allowed now l = (d, err, l')"
  shows "RateLimiter_handler lh sh ls ts now key h =
    (case err of
       None \<Rightarrow>
         (None,
          if sh then h(''X-Rate-Limit-Limit'' \<mapsto> lh,
                       ''X-Rate-Limit-Remaining'' \<mapsto>
                         Sprintf_limits (fst (RequestsLeft l')) (fst (snd (RequestsLeft l')))
                           (snd (snd (RequestsLeft l'))))
          else h,
          ls1\<lparr>ls_m := (ls_m ls1)(key \<mapsto> l')\<rparr>)
     | Some e \<Rightarrow>
         (Some (NewJSONErrorResponse StatusTooManyRequests e),
          if sh then h(''X-Rate-Limit-Limit'' \<mapsto> lh,
                       ''X-Rate-Limit-Remaining'' \<mapsto>
                         Sprintf_limits (fst (RequestsLeft l')) (fst (snd (RequestsLeft l')))
                           (snd (snd (RequestsLeft l'))),
                       ''X-Rate-Limit-Reset'' \<mapsto> Itoa (retry_seconds d),
                       ''Retry-After'' \<mapsto> Itoa (retry_seconds d))
          else h,
          ls1\<lparr>ls_m := (ls_m ls1)(key \<mapsto> l')\<rparr>))"
  using assms
  by (cases "RequestsLeft l'")
    (simp add: RateLimiter_handler_def Let_def split: option.splits prod.splits)

lemma retry_seconds_whole:
  assumes "0 \<le> sint d" and "sint d mod 1000000000 = 0"
  shows "retry_seconds d = sint d div 1000000000 + 1"
    and "ceiling_seconds d = sint d div 1000000000"
proof -
  define k where "k = sint d div 1000000000"
  have d: "sint d = 1000000000 * k"
    using assms(2) mult_div_mod_eq [of 1000000000 "sint d"] by (simp add: k_def)
  have k0: "0 \<le> k" using assms(1) by (simp add: k_def pos_imp_zdiv_nonneg_iff)
  have q: "quot (sint d) 1000000000 = k"
    using assms(1) d k0 by (simp add: quot_def sgn_if)
  have r: "rem (sint d) 1000000000 = 0"
    using q d by (simp add: rem_def)
  have "Duration_Seconds d + 1 = of_int (k + 1)"
    by (simp add: Duration_Seconds_def q r)
  then show "retry_seconds d = sint d div 1000000000 + 1"
    using k0 unfolding retry_seconds_def int_of_float_def k_def [symmetric]
    by (simp only: floor_of_int ceiling_of_int of_int_0_le_iff split: if_splits) simp
  have "(of_int (sint d) :: rat) / 1000000000 = of_int k"
    by (simp add: d)
  then show "ceiling_seconds d = sint d div 1000000000"
    unfolding ceiling_seconds_def k_def [symmetric] by (simp only: ceiling_of_int)
qed

lemma Allowed_delay_whole_seconds:
  assumes h: "0 \<le>s lastHour l" "lastHour l \<le>s now"
    and m: "0 \<le>s lastMin l" "lastMin l \<le>s now"
    and s: "0 \<le>s lastSec l" "lastSec l \<le>s now"
    and r: "fst (snd (Allowed now l)) \<noteq> None"
  shows "0 < sint (fst (Allowed now l)) \<and> sint (fst (Allowed now l)) mod 1000000000 = 0"
proof -
  have hp: "0 < sint (hourStart now l) + 3600 - sint now"
    using hour_reading(1) [OF h] by (simp add: hourStart_def)
  have mp: "0 < sint (minStart now l) + 60 - sint now"
    using min_reading(1) [OF m] by (simp add: minStart_def)
  have sp: "0 < sint (secStart now l) + 1 - sint now"
    using sec_reading(1) [OF s] by (simp add: secStart_def)
  consider "hourExceeded now l" | "\<not> hourExceeded now l" "minExceeded now l"
    | "\<not> hourExceeded now l" "\<not> minExceeded now l" "secExceeded now l"
    | "\<not> hourExceeded now l" "\<not> minExceeded now l" "\<not> secExceeded now l"
    by blast
  then show ?thesis
  proof cases
    case 1
    then have "fst (Allowed now l) = time_Hour - time_Second * (now - hourStart now l)"
      by (simp add: Allowed_hour)
    then show ?thesis using hp by (simp add: hour_reading(2) [OF h])
  next
    case 2
    then have "fst (Allowed now l) = time_Minute - time_Second * (now - minStart now l)"
      by (simp add: Allowed_minute)
    then show ?thesis using mp by (simp add: min_reading(2) [OF m])
  next
    case 3
    then have "fst (Allowed now l) = time_Second - time_Second * (now - secStart now l)"
      by (simp add: Allowed_second)
    then show ?thesis using sp by (simp add: sec_reading(2) [OF s])
  next
    case 4
    then have "fst (snd (Allowed now l)) = None" by (simp add: Allowed_ok)
    with r show ?thesis by simp
  qed
qed

text \<open>
  Claim C5, as amended. On a rejected call with \<open>setHeaders\<close> enabled, the headers
  \<open>X-Rate-Limit-Reset\<close> and \<open>Retry-After\<close> are both set to the decimal rendering of
  \<open>int(d.Seconds() + 1)\<close>, \<open>d\<close> being the delay \<open>Allowed\<close> returned. When the limiter's
  window starts are non-negative and not after \<open>now\<close>, that delay is a positive whole
  number of seconds, and on a non-negative whole number of seconds the rendered value is
  the delay in seconds plus one: one more than its ceiling.
\<close>

theorem C5_retry_headers:
  "(case Limiters_Get ts ls key of (l, ls1) \<Rightarrow>
      (case Allowed now l of (d, err, l') \<Rightarrow>
         (case snd (RateLimiter maxS maxM maxH True) ls ts now key h of (resp, h', ls') \<Rightarrow>
            err \<noteq> None \<longrightarrow>
              h' ''X-Rate-Limit-Reset'' = Some (Itoa (retry_seconds d)) \<and>
              h' ''Retry-After'' = Some (Itoa (retry_seconds d)) \<and>
              (0 \<le>s lastHour l \<and> lastHour l \<le>s now \<and> 0 \<le>s lastMin l \<and> lastMin l \<le>s now \<and>
               0 \<le>s lastSec l \<and> lastSec l \<le>s now \<longrightarrow>
                 0 < sint d \<and> sint d mod 1000000000 = 0 \<and>
                 retry_seconds d = sint d div 1000000000 + 1 \<and>
                 retry_seconds d = ceiling_seconds d + 1)))) \<and>
   (0 \<le> sint x \<and> sint x mod 1000000000 = 0 \<longrightarrow>
      retry_seconds x = sint x div 1000000000 + 1 \<and> retry_seconds x = ceiling_seconds x + 1)"
proof (intro conjI)
  show "0 \<le> sint x \<and> sint x mod 1000000000 = 0 \<longrightarrow>
      retry_seconds x = sint x div 1000000000 + 1 \<and> retry_seconds x = ceiling_seconds x + 1"
    using retry_seconds_whole [of x] by simp
  obtain l ls1 where g: "Limiters_Get ts ls key = (l, ls1)"
    by (cases "Limiters_Get ts ls key") blast
  obtain d err l' where a: "Allowed now l = (d, err, l')"
    by (cases "Allowed now l") blast
  obtain resp h' ls' where
    r: "snd (RateLimiter maxS maxM maxH True) ls ts now key h = (resp, h', ls')"
    by (cases "snd (RateLimiter maxS maxM maxH True) ls ts now key h") blast
  have "h' ''X-Rate-Limit-Reset'' = Some (Itoa (retry_seconds d)) \<and>
        h' ''Retry-After'' = Some (Itoa (retry_seconds d)) \<and>
        (0 \<le>s lastHour l \<and> lastHour l \<le>s now \<and> 0 \<le>s lastMin l \<and> lastMin l \<le>s now \<and>
         0 \<le>s lastSec l \<and> lastSec l \<le>s now \<longrightarrow>
           0 < sint d \<and> sint d mod 1000000000 = 0 \<and>
           retry_seconds d = sint d div 1000000000 + 1 \<and>
           retry_seconds d = ceiling_seconds d + 1)"
    if e: "err \<noteq> None"
  proof (intro conjI impI)
    from e obtain e' where e': "err = Some e'" by blast
    from r have "RateLimiter_handler (Sprintf_limits maxS maxM maxH) True ls ts now key h =
        (resp, h', ls')"
      by (simp add: RateLimiter_def)
    then have h': "h' = h(''X-Rate-Limit-Limit'' \<mapsto> Sprintf_limits maxS maxM maxH,
                       ''X-Rate-Limit-Remaining'' \<mapsto>
                         Sprintf_limits (fst (RequestsLeft l')) (fst (snd (RequestsLeft l')))
                           (snd (snd (RequestsLeft l'))),
                       ''X-Rate-Limit-Reset'' \<mapsto> Itoa (retry_seconds d),
                       ''Retry-After'' \<mapsto> Itoa (retry_seconds d))"
      unfolding handler_unfold [OF g a] e' by simp
    show "h' ''X-Rate-Limit-Reset'' = Some (Itoa (retry_seconds d))"
      "h' ''Retry-After'' = Some (Itoa (retry_seconds d))"
      by (simp_all add: h')
  next
    assume c: "0 \<le>s lastHour l \<and> lastHour l \<le>s now \<and> 0 \<le>s lastMin l \<and> lastMin l \<le>s now \<and>
         0 \<le>s lastSec l \<and> lastSec l \<le>s now"
    have "fst (snd (Allowed now l)) \<noteq> None" using a e by simp
    with c have w: "0 < sint (fst (Allowed now l)) \<and> sint (fst (Allowed now l)) mod 1000000000 = 0"
      by (intro Allowed_delay_whole_seconds) simp_all
    then have w': "0 < sint d" "sint d mod 1000000000 = 0"
      using a by simp_all
    then show "0 < sint d" "sint d mod 1000000000 = 0" by simp_all
    from w' have "0 \<le> sint d" by simp
    from retry_seconds_whole [OF this w'(2)]
    show "retry_seconds d = sint d div 1000000000 + 1" "retry_seconds d = ceiling_seconds d + 1"
      by simp_all
  qed
  then show "case Limiters_Get ts ls key of (l, ls1) \<Rightarrow>
      (case Allowed now l of (d, err, l') \<Rightarrow>
         (case snd (RateLimiter maxS maxM maxH True) ls ts now key h of (resp, h', ls') \<Rightarrow>
            err \<noteq> None \<longrightarrow>
              h' ''X-Rate-Limit-Reset'' = Some (Itoa (retry_seconds d)) \<and>
              h' ''Retry-After'' = Some (Itoa (retry_seconds d)) \<and>
              (0 \<le>s lastHour l \<and> lastHour l \<le>s now \<and> 0 \<le>s lastMin l \<and> lastMin l \<le>s now \<and>
               0 \<le>s lastSec l \<and> lastSec l \<le>s now \<longrightarrow>
                 0 < sint d \<and> sint d mod 1000000000 = 0 \<and>
                 retry_seconds d = sint d div 1000000000 + 1 \<and>
                 retry_seconds d = ceiling_seconds d + 1)))"
    unfolding g a r prod.case by blast
qed

lemma Itoa_small: "Itoa 1 = ''1''" "Itoa 2 = ''2''"
  by (simp_all add: Itoa_def decimal.simps [of "Suc 0"] decimal.simps [of 2])

lemma registry_at_limit_Get:
  "Limiters_Get 100 registry_at_limit ''10.0.0.1'' = (limiter_at_limit, registry_at_limit)"
  by (simp add: Limiters_Get_def registry_at_limit_def)

lemma limiter_at_limit_Allowed:
  "Allowed 100 limiter_at_limit =
     (time_Second, Some (ExceedsPerSecond 4 3 time_Second),
      limiter_at_limit\<lparr>reqPerHour := 4, reqPerMinute := 4, reqPerSecond := 4,
        totalBlocked := 1\<rparr>)"
  using limiter_at_limit_facts
  by (simp add: Allowed_cases limiter_at_limit_def)

lemma limiter_at_limit_clock:
  "0 \<le>s lastHour limiter_at_limit \<and> lastHour limiter_at_limit \<le>s 100 \<and>
   0 \<le>s lastMin limiter_at_limit \<and> lastMin limiter_at_limit \<le>s 100 \<and>
   0 \<le>s lastSec limiter_at_limit \<and> lastSec limiter_at_limit \<le>s 100"
  by (simp add: limiter_at_limit_def word_sle_eq)

lemma time_Second_seconds:
  "retry_seconds time_Second = 2" "ceiling_seconds time_Second = 1"
  using retry_seconds_whole [of time_Second] by (simp_all add: sint_time_Second)

theorem C5_retry_headers_witness:
  "fst (snd (Allowed 100 limiter_at_limit)) \<noteq> None \<and>
   0 \<le>s lastHour limiter_at_limit \<and> lastHour limiter_at_limit \<le>s 100 \<and>
   0 \<le>s lastMin limiter_at_limit \<and> lastMin limiter_at_limit \<le>s 100 \<and>
   0 \<le>s lastSec limiter_at_limit \<and> lastSec limiter_at_limit \<le>s 100 \<and>
   fst (snd (snd (RateLimiter 3 10 10 True) registry_at_limit 100 100 ''10.0.0.1'' Map.empty))
     ''X-Rate-Limit-Reset'' = Some (Itoa (retry_seconds time_Second)) \<and>
   fst (snd (snd (RateLimiter 3 10 10 True) registry_at_limit 100 100 ''10.0.0.1'' Map.empty))
     ''Retry-After'' = Some (Itoa (retry_seconds time_Second)) \<and>
   retry_seconds time_Second = ceiling_seconds time_Second + 1"
proof -
  obtain resp h' ls' where
    r: "snd (RateLimiter 3 10 10 True) registry_at_limit 100 100 ''10.0.0.1'' Map.empty =
      (resp, h', ls')"
    by (cases "snd (RateLimiter 3 10 10 True) registry_at_limit 100 100 ''10.0.0.1'' Map.empty")
      blast
  note c = C5_retry_headers [where ts = 100 and ls = registry_at_limit
      and key = "''10.0.0.1''" and now = 100 and maxS = 3 and maxM = 10 and maxH = 10
      and h = Map.empty, THEN conjunct1,
      unfolded registry_at_limit_Get limiter_at_limit_Allowed r prod.case]
  have e: "Some (ExceedsPerSecond 4 3 time_Second) \<noteq> None" by simp
  from c e limiter_at_limit_clock
  have "h' ''X-Rate-Limit-Reset'' = Some (Itoa (retry_seconds time_Second)) \<and>
      h' ''Retry-After'' = Some (Itoa (retry_seconds time_Second)) \<and>
      retry_seconds time_Second = ceiling_seconds time_Second + 1"
    by blast
  then show ?thesis
    using limiter_at_limit_clock by (simp add: r limiter_at_limit_Allowed)
qed

text \<open>
  Claim C5 as stated expects the ceiling of the delay in seconds. A caller rejected with
  a delay of exactly one second gets \<open>Retry-After: 2\<close> and \<open>X-Rate-Limit-Reset: 2\<close>, not
  the ceiling, which is 1.
\<close>

theorem C5_retry_headers_counterexample:
  "fst (Limiters_Get 100 registry_at_limit ''10.0.0.1'') = limiter_at_limit \<and>
   fst (snd (Allowed 100 limiter_at_limit)) \<noteq> None \<and>
   fst (Allowed 100 limiter_at_limit) = time_Second \<and>
   sint time_Second = 1000000000 \<and>
   ceiling_seconds (fst (Allowed 100 limiter_at_limit)) = 1 \<and>
   fst (snd (snd (RateLimiter 3 10 10 True) registry_at_limit 100 100 ''10.0.0.1'' Map.empty))
     ''Retry-After'' = Some ''2'' \<and>
   fst (snd (snd (RateLimiter 3 10 10 True) registry_at_limit 100 100 ''10.0.0.1'' Map.empty))
     ''X-Rate-Limit-Reset'' = Some ''2'' \<and>
   fst (snd (snd (RateLimiter 3 10 10 True) registry_at_limit 100 100 ''10.0.0.1'' Map.empty))
     ''Retry-After'' \<noteq> Some (Itoa (ceiling_seconds (fst (Allowed 100 limiter_at_limit)))) \<and>
   fst (snd (snd (RateLimiter 3 10 10 True) registry_at_limit 100 100 ''10.0.0.1'' Map.empty))
     ''X-Rate-Limit-Reset'' \<noteq> Some (Itoa (ceiling_seconds (fst (Allowed 100 limiter_at_limit))))"
  by (simp add: RateLimiter_def handler_unfold [OF registry_at_limit_Get limiter_at_limit_Allowed]
      registry_at_limit_Get limiter_at_limit_Allowed time_Second_seconds Itoa_small
      sint_time_Second)

text \<open>
  Claim C6. The handler returns \<open>nil\<close> exactly when \<open>Allowed\<close> returned no error; when
  \<open>Allowed\<close> returned an error, the handler returns the JSON error response made from
  that error with status 429. In both cases the limiter updated by \<open>Allowed\<close> is the one
  the registry holds for the caller's key afterwards.
\<close>

theorem C6_nil_iff_allowed:
  "(case Limiters_Get ts ls key of (l, ls1) \<Rightarrow>
      (case Allowed now l of (d, err, l') \<Rightarrow>
         (case snd (RateLimiter maxS maxM maxH setHeaders) ls ts now key h of (resp, h', ls') \<Rightarrow>
            (resp = None) = (err = None) \<and>
            (case err of
               None \<Rightarrow> resp = None
             | Some e \<Rightarrow>
                 resp = Some (NewJSONErrorResponse StatusTooManyRequests e) \<and>
                 resp_status (NewJSONErrorResponse StatusTooManyRequests e) = 429 \<and>
                 resp_error (NewJSONErrorResponse StatusTooManyRequests e) = e) \<and>
            ls_m ls' key = Some l')))"
proof -
  obtain l ls1 where g: "Limiters_Get ts ls key = (l, ls1)"
    by (cases "Limiters_Get ts ls key") blast
  obtain d err l' where a: "Allowed now l = (d, err, l')"
    by (cases "Allowed now l") blast
  show ?thesis
    unfolding g a prod.case
    by (simp add: RateLimiter_def handler_unfold [OF g a] NewJSONErrorResponse_def
        StatusTooManyRequests_def split: option.splits)
qed

theorem C6_nil_iff_allowed_witness:
  "fst (snd (Allowed 100 limiter_at_limit)) = Some (ExceedsPerSecond 4 3 time_Second) \<and>
   fst (snd (RateLimiter 3 10 10 False) registry_at_limit 100 100 ''10.0.0.1'' Map.empty) =
     Some (JSONErrorResponse 429 (ExceedsPerSecond 4 3 time_Second)) \<and>
   fst (snd (Allowed 100 (fst (Limiters_Get 100 (NewLimiters 3 10 10) ''10.0.0.1'')))) = None \<and>
   fst (snd (RateLimiter 3 10 10 False) (NewLimiters 3 10 10) 100 100 ''10.0.0.1'' Map.empty) =
     None"
proof -
  obtain resp h' ls' where
    r: "snd (RateLimiter 3 10 10 False) registry_at_limit 100 100 ''10.0.0.1'' Map.empty =
      (resp, h', ls')"
    by (cases "snd (RateLimiter 3 10 10 False) registry_at_limit 100 100 ''10.0.0.1'' Map.empty")
      blast
  note c = C6_nil_iff_allowed [where ts = 100 and ls = registry_at_limit
      and key = "''10.0.0.1''" and now = 100 and maxS = 3 and maxM = 10 and maxH = 10
      and h = Map.empty and setHeaders = False,
      unfolded registry_at_limit_Get limiter_at_limit_Allowed r prod.case]
  then have a: "resp = Some (JSONErrorResponse 429 (ExceedsPerSecond 4 3 time_Second))"
    by (simp add: NewJSONErrorResponse_def StatusTooManyRequests_def)
  obtain l ls1 where g: "Limiters_Get 100 (NewLimiters 3 10 10) ''10.0.0.1'' = (l, ls1)"
    by (cases "Limiters_Get 100 (NewLimiters 3 10 10) ''10.0.0.1''") blast
  then have l: "l = NewLimiter 3 10 10 100"
    by (auto simp: Limiters_Get_def NewLimiters_def Let_def)
  have o: "(1 :: int64) \<le>s 3" "(1 :: int64) \<le>s 10" by (simp_all add: word_sle_eq)
  obtain l1 where a1: "Allowed 100 l = (0, None, l1)"
    unfolding l using NewLimiter_first_call [OF o(1) o(2) o(2), of 100 100] by blast
  obtain resp2 h2 ls2 where
    r2: "snd (RateLimiter 3 10 10 False) (NewLimiters 3 10 10) 100 100 ''10.0.0.1'' Map.empty =
      (resp2, h2, ls2)"
    by (cases "snd (RateLimiter 3 10 10 False) (NewLimiters 3 10 10) 100 100 ''10.0.0.1'' Map.empty")
      blast
  note c2 = C6_nil_iff_allowed [where ts = 100 and ls = "NewLimiters 3 10 10"
      and key = "''10.0.0.1''" and now = 100 and maxS = 3 and maxM = 10 and maxH = 10
      and h = Map.empty and setHeaders = False,
      unfolded g a1 r2 prod.case]
  then have b: "resp2 = None" by simp
  show ?thesis
    using a b by (simp add: r r2 g a1 limiter_at_limit_Allowed)
qed

section \<open>Verification of the dispatch chain\<close>

subsection \<open>What every step of a request keeps\<close>















subsection \<open>Units that make no call into the chain\<close>








subsection \<open>The shape of a phase\<close>









subsection \<open>A middleware response stops the chain\<close>











section \<open>Verification of the trie router\<close>

lemma static_lookup_empty: "static_lookup empty_node segs = None"
  by (cases segs) (simp_all add: empty_node_def)

lemma static_lookup_match:
  "static_lookup n segs = Some h \<Longrightarrow> match_node n segs ps = Some (h, ps)"
proof (induction n segs arbitrary: ps rule: static_lookup.induct)
  case (1 ho st nm wc)
  then show ?case by simp
next
  case (2 ho st nm wc s rest)
  then show ?case by (cases "st s") simp_all
qed

lemma static_lookup_insert:
  "insert_route p h n = Inr n' \<Longrightarrow>
     static_lookup n' segs = (if p = map Static segs then Some h else static_lookup n segs)"
proof (induction p h n arbitrary: n' segs rule: insert_route.induct)
  case (1 h ho st nm wc)
  then show ?case by (cases segs) auto
next
  case (2 s rest h ho st nm wc)
  define c0 where "c0 = (case st s of None \<Rightarrow> empty_node | Some c \<Rightarrow> c)"
  from "2.prems" obtain c' where c': "insert_route rest h c0 = Inr c'"
    and n': "n' = Node ho (st(s \<mapsto> c')) nm wc"
    by (auto simp: c0_def split: sum.splits)
  have c0: "static_lookup c0 r = (case st s of None \<Rightarrow> None | Some c \<Rightarrow> static_lookup c r)" for r
    by (simp add: c0_def static_lookup_empty split: option.splits)
  show ?case
  proof (cases segs)
    case Nil
    then show ?thesis by (simp add: n')
  next
    case (Cons s2 rest2)
    show ?thesis
    proof (cases "s2 = s")
      case True
      from "2.IH" [OF c' [unfolded c0_def], of rest2]
      have "static_lookup c' rest2 =
          (if rest = map Static rest2 then Some h else static_lookup c0 rest2)"
        by (simp add: c0_def)
      with True Cons show ?thesis by (simp add: n' c0)
    next
      case False
      with Cons show ?thesis by (simp add: n')
    qed
  qed
next
  case (3 x rest h ho st nm wc)
  then have "\<exists>nm'. n' = Node ho st nm' wc"
    by (auto split: option.splits sum.splits if_splits)
  then show ?case by (cases segs) auto
next
  case (4 x rest h ho st nm wc)
  then have "\<exists>wc'. n' = Node ho st nm wc'"
    by (auto split: option.splits if_splits)
  then show ?case by (cases segs) auto
qed

lemma AddRoute_static:
  assumes "AddRoute g m' pat h r = Inr r'"
  shows "router_static r' m segs =
    (if m' = m \<and> parse_pattern pat = map Static segs then Some h else router_static r m segs)"
proof -
  define t0 where "t0 = (case methods r m' of None \<Rightarrow> empty_node | Some tree \<Rightarrow> tree)"
  from assms obtain t' where t': "insert_route (parse_pattern pat) h t0 = Inr t'"
    and r': "methods r' = (methods r)(m' \<mapsto> t')"
    by (auto simp: AddRoute_def t0_def split: sum.splits)
  have t0: "static_lookup t0 segs = router_static r m' segs"
    by (simp add: t0_def router_static_def static_lookup_empty split: option.splits)
  show ?thesis
  proof (cases "m' = m")
    case True
    with static_lookup_insert [OF t', of segs] t0 show ?thesis
      by (simp add: router_static_def r')
  next
    case False
    then show ?thesis by (simp add: router_static_def r')
  qed
qed

lemma AddRoutes_static:
  assumes "AddRoutes later r1 = Inr r2"
    and "\<forall>e \<in> set later. \<not> (fst (snd e) = m \<and> parse_pattern (fst (snd (snd e))) = map Static segs)"
  shows "router_static r2 m segs = router_static r1 m segs"
  using assms
proof (induction later arbitrary: r1)
  case Nil
  then show ?case by simp
next
  case (Cons e later)
  obtain g m' pat h where e: "e = (g, m', pat, h)" by (cases e) auto
  from Cons.prems(1) obtain r' where a: "AddRoute g m' pat h r1 = Inr r'"
    and b: "AddRoutes later r' = Inr r2"
    by (auto simp: e split: sum.splits)
  from Cons.prems(2) have n: "\<not> (m' = m \<and> parse_pattern pat = map Static segs)"
    and rest: "\<forall>e \<in> set later. \<not> (fst (snd e) = m \<and> parse_pattern (fst (snd (snd e))) = map Static segs)"
    by (simp_all add: e)
  from Cons.IH [OF b rest] AddRoute_static [OF a, of m segs] n
  show ?case by auto
qed

lemma Match_static:
  "router_static r m (path_segments path) = Some h \<Longrightarrow> Match r m path = Some (h, [])"
  by (auto simp: router_static_def Match_def static_lookup_match split: option.splits)

lemma static_route_wins:
  assumes "AddRoute g m pat h r = Inr r1" and "parse_pattern pat = map Static segs"
    and "AddRoutes later r1 = Inr r2"
    and "\<forall>e \<in> set later. \<not> (fst (snd e) = m \<and> parse_pattern (fst (snd (snd e))) = map Static segs)"
    and "path_segments path = segs"
  shows "Match r2 m path = Some (h, [])"
proof -
  have "router_static r1 m segs = Some h"
    using AddRoute_static [OF assms(1), of m segs] assms(2) by simp
  then have "router_static r2 m segs = Some h"
    using AddRoutes_static [OF assms(3,4)] by simp
  then show ?thesis
    using assms(5) by (simp add: Match_static)
qed

lemma pattern_github3:
  "parse_pattern ''/api/files/:bkt/:type/:filename'' =
     [Static ''api'', Static ''files'', Named ''bkt'', Named ''type'', Named ''filename'']"
  by (simp add: parse_pattern_def path_segments_def parse_segment_def)

lemma path_github3:
  "path_segments ''/api/files/Personal/data/hi.txt'' =
     [''api'', ''files'', ''Personal'', ''data'', ''hi.txt'']"
  by (simp add: path_segments_def)

lemma Match_github3:
  "(case AddRoute [] ''GET'' ''/api/files/:bkt/:type/:filename'' h New of
      Inl e \<Rightarrow> False
    | Inr r \<Rightarrow>
        Match r ''GET'' ''/api/files/Personal/data/hi.txt'' =
          Some (h, [(''bkt'', ''Personal''), (''type'', ''data''), (''filename'', ''hi.txt'')]))"
  by (simp add: AddRoute_def Match_def New_def pattern_github3 path_github3 empty_node_def)

text \<open>
  Claim C2. At a node that has a static child for the current segment, the match goes
  through that child, whatever named or wildcard child the node has; without a static
  child for the segment it goes through the named child, capturing the segment,
  whatever wildcard child the node has; the wildcard child is used last. For every
  router, once an all-static route is registered, matching its path yields its handler
  with no parameters, whatever other routes (named siblings among them) are registered
  before or after it. Matching \<open>/api/files/Personal/data/hi.txt\<close> against the registered
  pattern \<open>/api/files/:bkt/:type/:filename\<close> yields \<open>bkt=Personal\<close>, \<open>type=data\<close>,
  \<open>filename=hi.txt\<close>, in that order.
\<close>

theorem C2_static_beats_named_beats_wildcard:
  "(st s = Some c \<longrightarrow> match_node (Node ho st nm wc) (s # rest) ps = match_node c rest ps) \<and>
   (st s = None \<longrightarrow>
      match_node (Node ho st (Some (x, c)) wc) (s # rest) ps =
        match_node c rest (ps @ [(x, s)])) \<and>
   (st s = None \<longrightarrow>
      match_node (Node ho st None (Some (x, hw))) (s # rest) ps =
        Some (hw, ps @ [(x, join_slash (s # rest))])) \<and>
   (AddRoute g m pat h r = Inr r1 \<and> parse_pattern pat = map Static segs \<and>
    AddRoutes later r1 = Inr r2 \<and>
    (\<forall>e \<in> set later.
       \<not> (fst (snd e) = m \<and> parse_pattern (fst (snd (snd e))) = map Static segs)) \<and>
    path_segments path = segs \<longrightarrow>
      Match r2 m path = Some (h, [])) \<and>
   (case AddRoute [] ''GET'' ''/api/files/:bkt/:type/:filename'' h New of
      Inl e \<Rightarrow> False
    | Inr r' \<Rightarrow>
        Match r' ''GET'' ''/api/files/Personal/data/hi.txt'' =
          Some (h, [(''bkt'', ''Personal''), (''type'', ''data''), (''filename'', ''hi.txt'')]) \<and>
        Params_Get [(''bkt'', ''Personal''), (''type'', ''data''), (''filename'', ''hi.txt'')]
          ''bkt'' = ''Personal'' \<and>
        Params_Get [(''bkt'', ''Personal''), (''type'', ''data''), (''filename'', ''hi.txt'')]
          ''type'' = ''data'' \<and>
        Params_Get [(''bkt'', ''Personal''), (''type'', ''data''), (''filename'', ''hi.txt'')]
          ''filename'' = ''hi.txt'')"
proof (intro conjI impI)
  assume "st s = Some c"
  then show "match_node (Node ho st nm wc) (s # rest) ps = match_node c rest ps"
    by simp
next
  assume "st s = None"
  then show "match_node (Node ho st (Some (x, c)) wc) (s # rest) ps =
      match_node c rest (ps @ [(x, s)])"
    by simp
next
  assume "st s = None"
  then show "match_node (Node ho st None (Some (x, hw))) (s # rest) ps =
      Some (hw, ps @ [(x, join_slash (s # rest))])"
    by simp
next
  assume a: "AddRoute g m pat h r = Inr r1 \<and> parse_pattern pat = map Static segs \<and>
    AddRoutes later r1 = Inr r2 \<and>
    (\<forall>e \<in> set later.
       \<not> (fst (snd e) = m \<and> parse_pattern (fst (snd (snd e))) = map Static segs)) \<and>
    path_segments path = segs"
  show "Match r2 m path = Some (h, [])"
    by (rule static_route_wins [of g m pat h r r1 segs later r2 path]) (use a in blast)+
next
  have p: "Params_Get [(''bkt'', ''Personal''), (''type'', ''data''), (''filename'', ''hi.txt'')]
          ''bkt'' = ''Personal''"
    "Params_Get [(''bkt'', ''Personal''), (''type'', ''data''), (''filename'', ''hi.txt'')]
          ''type'' = ''data''"
    "Params_Get [(''bkt'', ''Personal''), (''type'', ''data''), (''filename'', ''hi.txt'')]
          ''filename'' = ''hi.txt''"
    by (simp_all add: Params_Get_def)
  show "case AddRoute [] ''GET'' ''/api/files/:bkt/:type/:filename'' h New of
      Inl e \<Rightarrow> False
    | Inr r' \<Rightarrow>
        Match r' ''GET'' ''/api/files/Personal/data/hi.txt'' =
          Some (h, [(''bkt'', ''Personal''), (''type'', ''data''), (''filename'', ''hi.txt'')]) \<and>
        Params_Get [(''bkt'', ''Personal''), (''type'', ''data''), (''filename'', ''hi.txt'')]
          ''bkt'' = ''Personal'' \<and>
        Params_Get [(''bkt'', ''Personal''), (''type'', ''data''), (''filename'', ''hi.txt'')]
          ''type'' = ''data'' \<and>
        Params_Get [(''bkt'', ''Personal''), (''type'', ''data''), (''filename'', ''hi.txt'')]
          ''filename'' = ''hi.txt''"
    using Match_github3 [of h] p by (simp split: sum.splits)
qed

lemma users_routes:
  "\<exists>r1 r2. AddRoute [] ''GET'' ''/users/list'' ''list'' New = Inr r1 \<and>
     AddRoutes [([], ''GET'', ''/users/:id'', ''show'')] r1 = Inr r2"
  by (simp add: AddRoute_def New_def parse_pattern_def path_segments_def parse_segment_def
      empty_node_def)

theorem C2_static_beats_named_beats_wildcard_witness:
  "static_children users_node ''list'' = Some (Node (Some ''list'') (\<lambda>s. None) None None) \<and>
   match_node users_node [''list''] [] = Some (''list'', []) \<and>
   static_children users_node ''42'' = None \<and>
   match_node users_node [''42''] [] = Some (''show'', [(''id'', ''42'')]) \<and>
   (case AddRoute [] ''GET'' ''/users/list'' ''list'' New of
      Inl e \<Rightarrow> False
    | Inr r1 \<Rightarrow>
        (case AddRoutes [([], ''GET'', ''/users/:id'', ''show'')] r1 of
           Inl e \<Rightarrow> False
         | Inr r2 \<Rightarrow> Match r2 ''GET'' ''/users/list'' = Some (''list'', [])))"
proof -
  note c = C2_static_beats_named_beats_wildcard
  have s1: "static_children users_node ''list'' = Some (Node (Some ''list'') (\<lambda>s. None) None None)"
    and s2: "static_children users_node ''42'' = None"
    by (simp_all add: users_node_def)
  have m1: "match_node users_node [''list''] [] = Some (''list'', [])"
    unfolding users_node_def
    using c [where st = "[''list'' \<mapsto> Node (Some ''list'') (\<lambda>s. None) None None]"
        and s = "''list''" and c = "Node (Some ''list'') (\<lambda>s. None) None None"
        and ho = None and nm = "Some (''id'', Node (Some ''show'') (\<lambda>s. None) None None)"
        and wc = "Some (''rest'', ''files'')" and rest = "[]" and ps = "[]", THEN conjunct1]
    by simp
  have m2: "match_node users_node [''42''] [] = Some (''show'', [(''id'', ''42'')])"
    unfolding users_node_def
    using c [where st = "[''list'' \<mapsto> Node (Some ''list'') (\<lambda>s. None) None None]"
        and s = "''42''" and c = "Node (Some ''show'') (\<lambda>s. None) None None"
        and ho = None and x = "''id''"
        and wc = "Some (''rest'', ''files'')" and rest = "[]" and ps = "[]",
        THEN conjunct2, THEN conjunct1]
    by simp
  obtain r1 r2 where a: "AddRoute [] ''GET'' ''/users/list'' ''list'' New = Inr r1"
    and b: "AddRoutes [([], ''GET'', ''/users/:id'', ''show'')] r1 = Inr r2"
    using users_routes by blast
  have p: "parse_pattern ''/users/list'' = map Static [''users'', ''list'']"
    by (simp add: parse_pattern_def path_segments_def parse_segment_def)
  have q: "\<forall>e \<in> set [([] :: string, ''GET'', ''/users/:id'', ''show'')].
       \<not> (fst (snd e) = ''GET'' \<and>
          parse_pattern (fst (snd (snd e))) = map Static [''users'', ''list''])"
    by (simp add: parse_pattern_def path_segments_def parse_segment_def)
  have s: "path_segments ''/users/list'' = [''users'', ''list'']"
    by (simp add: path_segments_def)
  have "Match r2 ''GET'' ''/users/list'' = Some (''list'', [])"
    using c [where g = "[]" and m = "''GET''" and pat = "''/users/list''" and h = "''list''"
        and r = New and ?r1.0 = r1 and segs = "[''users'', ''list'']"
        and later = "[([], ''GET'', ''/users/:id'', ''show'')]" and ?r2.0 = r2
        and path = "''/users/list''",
        THEN conjunct2, THEN conjunct2, THEN conjunct2, THEN conjunct1]
      a b p q s
    by blast
  then have "case AddRoute [] ''GET'' ''/users/list'' ''list'' New of
      Inl e \<Rightarrow> False
    | Inr r1 \<Rightarrow>
        (case AddRoutes [([], ''GET'', ''/users/:id'', ''show'')] r1 of
           Inl e \<Rightarrow> False
         | Inr r2 \<Rightarrow> Match r2 ''GET'' ''/users/list'' = Some (''list'', []))"
    by (simp only: a b sum.case)
  with s1 s2 m1 m2 show ?thesis by blast
qed

end
